theory Spec2Isabelle
  imports Main "HOL-Library.Word"
begin

unbundle bit_operations_syntax

section \<open>The software IO TLB (swiotlb) bounce-buffer allocator\<close>

text \<open>
  A shallow embedding of the allocator of \<^verbatim>\<open>kernel/dma/swiotlb.c\<close>: the slot table, the
  bitmap of free units, the per-area free lists, the slot search, the bounce copy and the
  release paths, in the locked and in the lockless mode.

  \<^verbatim>\<open>phys_addr_t\<close>, \<^verbatim>\<open>dma_addr_t\<close>, \<^verbatim>\<open>size_t\<close> and \<^verbatim>\<open>unsigned long\<close> are 64-bit words,
  \<^verbatim>\<open>unsigned int\<close> is a 32-bit word. The arrays \<^verbatim>\<open>mem->slots\<close>, \<^verbatim>\<open>mem->bitmap\<close> and
  \<^verbatim>\<open>mem->areas\<close> are lists, so a slot is named by its index (the source's
  \<^verbatim>\<open>slot - mem->slots\<close>), a natural number; where the source computes with an index in
  \<^verbatim>\<open>unsigned int\<close> or \<^verbatim>\<open>unsigned long\<close>, the index is converted and the arithmetic is done
  at that width.
\<close>

type_synonym u64 = "64 word"
type_synonym u32 = "32 word"
type_synonym u8 = "8 word"

subsection \<open>Constants\<close>

text \<open>
  Modelled from the spec: the constants of \<^verbatim>\<open>linux/swiotlb.h\<close> and of the page size are not
  in the source tree. The spec gives a unit of 2KiB and a segment of 128 units; the page is
  the 4KiB page of x86.
\<close>

definition IO_TLB_SHIFT :: nat where
  "IO_TLB_SHIFT = 11"

definition IO_TLB_SIZE :: u64 where
  "IO_TLB_SIZE = 2048"

definition IO_TLB_SEGSIZE :: u64 where
  "IO_TLB_SEGSIZE = 128"

definition PAGE_SHIFT :: nat where
  "PAGE_SHIFT = 12"

definition PAGE_SIZE :: u64 where
  "PAGE_SIZE = 4096"

definition INVALID_PHYS_ADDR :: u64 where
  "INVALID_PHYS_ADDR = NOT 0"

definition DMA_MAPPING_ERROR :: u64 where
  "DMA_MAPPING_ERROR = NOT 0"

subsection \<open>Data\<close>

text \<open>
  \<^verbatim>\<open>struct io_tlb_slot\<close>. The \<^verbatim>\<open>node\<close> field links the slot into a free list; here the free
  lists hold the slot indices.
\<close>

record io_tlb_slot =
  orig_addr :: u64
  alloc_size :: u64

text \<open>\<^verbatim>\<open>struct io_tlb_area\<close>; the head of each list is its first element.\<close>

record io_tlb_area =
  used :: u64
  free_slots :: "nat list"
  free_slots_from_other_cpu :: "nat list"

text \<open>
  \<^verbatim>\<open>struct io_tlb_mem\<close>: the fields the allocator reads after initialisation. The contents
  of the staging memory behind \<^verbatim>\<open>vaddr\<close> are kept in the \<open>memory\<close> record below.
\<close>

record io_tlb_mem =
  start :: u64
  nslabs :: nat
  nareas :: nat
  area_nslabs :: nat
  areas :: "io_tlb_area list"
  slots :: "io_tlb_slot list"
  bitmap :: "bool list"

text \<open>
  Modelled from the spec: what the allocator reads of \<^verbatim>\<open>struct device\<close>, whose declaration
  and accessors (\<^verbatim>\<open>dma_get_min_align_mask\<close>, \<^verbatim>\<open>dma_get_seg_boundary\<close>,
  \<^verbatim>\<open>phys_to_dma_unencrypted\<close>) are not in the source tree. The spec names them as inputs:
  the minimum alignment mask, the segment boundary mask and the bus address of a physical
  address.
\<close>

record device =
  min_align_mask :: u32
  segment_boundary_mask :: u64
  bus_address_of :: "u64 \<Rightarrow> u64"

definition dma_get_min_align_mask :: "device \<Rightarrow> u32" where
  "dma_get_min_align_mask dev = min_align_mask dev"

definition dma_get_seg_boundary :: "device \<Rightarrow> u64" where
  "dma_get_seg_boundary dev = segment_boundary_mask dev"

definition phys_to_dma_unencrypted :: "device \<Rightarrow> u64 \<Rightarrow> u64" where
  "phys_to_dma_unencrypted dev paddr = bus_address_of dev paddr"

text \<open>
  The results of the fallible functions: \<open>BUG\<close> is a failed \<^verbatim>\<open>BUG_ON\<close>, \<open>OUT_OF_BOUNDS\<close> an
  access to \<^verbatim>\<open>mem->slots\<close> or \<^verbatim>\<open>mem->areas\<close> outside the array, which the C leaves
  undefined.
\<close>

datatype fault = BUG | OUT_OF_BOUNDS

subsection \<open>Helpers\<close>

definition nr_slots :: "u64 \<Rightarrow> u64" where
  "nr_slots val = (val + (IO_TLB_SIZE - 1)) div IO_TLB_SIZE"

definition swiotlb_align_offset :: "device \<Rightarrow> u64 \<Rightarrow> u32" where
  "swiotlb_align_offset dev addr =
     ucast (addr AND ucast (dma_get_min_align_mask dev) AND (IO_TLB_SIZE - 1))"

definition io_tlb_offset :: "u64 \<Rightarrow> u64" where
  "io_tlb_offset val = val AND (IO_TLB_SEGSIZE - 1)"

definition slot_addr :: "u64 \<Rightarrow> u64 \<Rightarrow> u64" where
  "slot_addr start_addr idx = start_addr + push_bit IO_TLB_SHIFT idx"

definition get_max_slots :: "u64 \<Rightarrow> u64" where
  "get_max_slots boundary_mask =
     (if boundary_mask = NOT 0 then push_bit (64 - IO_TLB_SHIFT) 1
      else nr_slots (boundary_mask + 1))"

text \<open>
  Modelled from the spec: \<^verbatim>\<open>iommu_is_span_boundary\<close> of \<^verbatim>\<open>linux/iommu-helper.h\<close> is not in
  the source tree. The spec: the candidate range, relative to the pool's bus base, must not
  cross a multiple of the boundary size. The boundary size is a power of two, so the
  position within the boundary is taken with a mask.
\<close>

definition iommu_is_span_boundary :: "u32 \<Rightarrow> u32 \<Rightarrow> u64 \<Rightarrow> u64 \<Rightarrow> bool" where
  "iommu_is_span_boundary index nr shift boundary_size =
     (((shift + ucast index) AND (boundary_size - 1)) + ucast nr > boundary_size)"

text \<open>
  Modelled from the spec: the bitmap helpers of \<^verbatim>\<open>linux/bitops.h\<close> and \<^verbatim>\<open>linux/find.h\<close>
  are not in the source tree. A set bit is a free unit. \<open>find_next_zero_bit\<close> scans
  upwards from \<open>offset\<close> and returns the first index below \<open>sz\<close> whose bit is clear, or
  \<open>sz\<close>. A bit beyond the bitmap reads as clear.
\<close>

definition test_bit :: "bool list \<Rightarrow> nat \<Rightarrow> bool" where
  "test_bit bm i = (i < length bm \<and> bm ! i)"

definition find_next_zero_bit :: "bool list \<Rightarrow> nat \<Rightarrow> nat \<Rightarrow> nat" where
  "find_next_zero_bit bm sz offset =
     (case filter (\<lambda>i. \<not> test_bit bm i) [offset..<sz] of [] \<Rightarrow> sz | i # _ \<Rightarrow> i)"

text \<open>
  \<^verbatim>\<open>list_del\<close> unlinks the node of slot \<open>i\<close> from the list that holds it; \<^verbatim>\<open>list_add\<close>
  puts a node at the head of a list.
\<close>

definition list_del_area :: "nat \<Rightarrow> io_tlb_area \<Rightarrow> io_tlb_area" where
  "list_del_area i a =
     a\<lparr>free_slots := removeAll i (free_slots a),
       free_slots_from_other_cpu := removeAll i (free_slots_from_other_cpu a)\<rparr>"

definition list_del :: "nat \<Rightarrow> io_tlb_area list \<Rightarrow> io_tlb_area list" where
  "list_del i as = map (list_del_area i) as"

subsection \<open>The slot search\<close>

text \<open>
  The body of the \<^verbatim>\<open>list_for_each_entry_safe\<close> loop of \<^verbatim>\<open>swiotlb_do_find_slots\<close>: the
  checks in the order of the source; \<open>continue\<close> moves to the next node of the free list.
\<close>

fun free_slots_scan ::
  "bool list \<Rightarrow> u64 \<Rightarrow> u32 \<Rightarrow> u64 \<Rightarrow> u32 \<Rightarrow> u64 \<Rightarrow> u64 \<Rightarrow> u32 \<Rightarrow> nat list \<Rightarrow> nat option"
where
  "free_slots_scan bm tbl_dma_addr iotlb_align_mask max_slots nslots orig alloc_sz
      alloc_align_mask [] = None"
| "free_slots_scan bm tbl_dma_addr iotlb_align_mask max_slots nslots orig alloc_sz
      alloc_align_mask (slot # rest) =
     (let slot_index = (of_nat slot :: u32);
          slot_dma_addr = slot_addr tbl_dma_addr (ucast slot_index)
      in if orig \<noteq> 0 \<and>
            slot_dma_addr AND ucast iotlb_align_mask \<noteq> orig AND ucast iotlb_align_mask
         then free_slots_scan bm tbl_dma_addr iotlb_align_mask max_slots nslots orig alloc_sz
                alloc_align_mask rest
         else if alloc_align_mask \<noteq> 0 \<and> slot_dma_addr AND ucast (alloc_align_mask - 1) \<noteq> 0
         then free_slots_scan bm tbl_dma_addr iotlb_align_mask max_slots nslots orig alloc_sz
                alloc_align_mask rest
         else if alloc_sz \<ge> PAGE_SIZE \<and> slot_dma_addr AND (PAGE_SIZE - 1) \<noteq> 0
         then free_slots_scan bm tbl_dma_addr iotlb_align_mask max_slots nslots orig alloc_sz
                alloc_align_mask rest
         else if io_tlb_offset (ucast slot_index) + ucast nslots > IO_TLB_SEGSIZE
         then free_slots_scan bm tbl_dma_addr iotlb_align_mask max_slots nslots orig alloc_sz
                alloc_align_mask rest
         else if \<not> iommu_is_span_boundary slot_index nslots (nr_slots tbl_dma_addr) max_slots
                 \<and> find_next_zero_bit bm (unat (slot_index + nslots)) (unat slot_index)
                     = unat (slot_index + nslots)
         then Some slot
         else free_slots_scan bm tbl_dma_addr iotlb_align_mask max_slots nslots orig alloc_sz
                alloc_align_mask rest)"

text \<open>
  One round of the \<^verbatim>\<open>found:\<close> loop: clear the bit of unit \<open>i\<close>, record how much of the
  request remains from it, unlink it.
\<close>

definition claim_slot :: "u64 \<Rightarrow> u32 \<Rightarrow> nat \<Rightarrow> io_tlb_mem \<Rightarrow> nat \<Rightarrow> io_tlb_mem" where
  "claim_slot alloc_sz offset slot_index mem i =
     mem\<lparr>bitmap := (bitmap mem)[i := False],
         slots := (slots mem)[i := (slots mem ! i)\<lparr>alloc_size :=
            alloc_sz - ucast (offset +
              push_bit IO_TLB_SHIFT ((of_nat i :: u32) - of_nat slot_index))\<rparr>],
         areas := list_del i (areas mem)\<rparr>"

definition swiotlb_do_find_slots ::
  "device \<Rightarrow> io_tlb_mem \<Rightarrow> nat \<Rightarrow> u64 \<Rightarrow> u64 \<Rightarrow> u32 \<Rightarrow> fault + (nat option \<times> io_tlb_mem)"
where
  "swiotlb_do_find_slots dev mem area_index orig alloc_sz alloc_align_mask =
     (let boundary_mask = dma_get_seg_boundary dev;
          tbl_dma_addr = phys_to_dma_unencrypted dev (start mem) AND boundary_mask;
          max_slots = get_max_slots boundary_mask;
          iotlb_align_mask = dma_get_min_align_mask dev AND NOT (ucast (IO_TLB_SIZE - 1));
          nslots = (ucast (nr_slots alloc_sz) :: u32);
          offset = swiotlb_align_offset dev orig
      in if nslots = 0 then Inl BUG
         else if area_index \<ge> nareas mem then Inl BUG
         else
           let max_slots = max max_slots IO_TLB_SEGSIZE;
               area = areas mem ! area_index
           in if ucast nslots > of_nat (area_nslabs mem) - used area then Inr (None, mem)
              else
                (case free_slots_scan (bitmap mem) tbl_dma_addr iotlb_align_mask max_slots
                        nslots orig alloc_sz alloc_align_mask (free_slots area) of
                   None \<Rightarrow> Inr (None, mem)
                 | Some slot_index \<Rightarrow>
                     let mem1 = foldl (claim_slot alloc_sz offset slot_index) mem
                                  [slot_index ..< slot_index + unat nslots];
                         area1 = areas mem1 ! area_index
                     in Inr (Some slot_index,
                             mem1\<lparr>areas := (areas mem1)
                                    [area_index := area1\<lparr>used := used area1 + ucast nslots\<rparr>]\<rparr>)))"


subsection \<open>Initialisation\<close>

text \<open>
  \<^verbatim>\<open>swiotlb_init_io_tlb_mem\<close>: every area starts with \<open>used = 0\<close> and empty lists; every
  unit starts free, its bit set, its metadata the free sentinel, at the tail of the free
  list of area \<open>i / area_nslabs\<close>.
\<close>

definition list_add_tail_free :: "io_tlb_area list \<Rightarrow> nat \<Rightarrow> nat \<Rightarrow> io_tlb_area list" where
  "list_add_tail_free as aindex i =
     as[aindex := (as ! aindex)\<lparr>free_slots := free_slots (as ! aindex) @ [i]\<rparr>]"

definition swiotlb_init_io_tlb_mem :: "u64 \<Rightarrow> nat \<Rightarrow> nat \<Rightarrow> io_tlb_mem" where
  "swiotlb_init_io_tlb_mem start_addr n na =
     \<lparr>start = start_addr, nslabs = n, nareas = na, area_nslabs = n div na,
      areas = foldl (\<lambda>as i. list_add_tail_free as (i div (n div na)) i)
                (replicate na \<lparr>used = 0, free_slots = [], free_slots_from_other_cpu = []\<rparr>)
                [0..<n],
      slots = replicate n \<lparr>orig_addr = INVALID_PHYS_ADDR, alloc_size = 0\<rparr>,
      bitmap = replicate n True\<rparr>"

subsection \<open>Finding slots in the locked and in the lockless mode\<close>

text \<open>
  One round of the reclaim loop of \<^verbatim>\<open>swiotlb_find_slots_lockless\<close>: a unit queued by
  another CPU becomes free, moves to the head of the owner's free list, and \<open>used\<close> drops
  by one.
\<close>

definition reclaim_slot :: "nat \<Rightarrow> io_tlb_mem \<Rightarrow> nat \<Rightarrow> io_tlb_mem" where
  "reclaim_slot area_index mem i =
     (let as1 = list_del i (areas mem);
          a1 = as1 ! area_index
      in mem\<lparr>bitmap := (bitmap mem)[i := True],
             slots := (slots mem)[i := \<lparr>orig_addr = INVALID_PHYS_ADDR, alloc_size = 0\<rparr>],
             areas := as1[area_index := a1\<lparr>free_slots := i # free_slots a1,
                                            used := used a1 - 1\<rparr>]\<rparr>)"

definition swiotlb_find_slots_lockless ::
  "u32 \<Rightarrow> device \<Rightarrow> io_tlb_mem \<Rightarrow> u64 \<Rightarrow> u64 \<Rightarrow> u32 \<Rightarrow> fault + (nat option \<times> io_tlb_mem)"
where
  "swiotlb_find_slots_lockless cpu dev mem orig alloc_sz alloc_align_mask =
     (let area_index = unat (cpu AND (of_nat (nareas mem) - 1))
      in case swiotlb_do_find_slots dev mem area_index orig alloc_sz alloc_align_mask of
           Inl f \<Rightarrow> Inl f
         | Inr (Some index, mem1) \<Rightarrow> Inr (Some index, mem1)
         | Inr (None, mem1) \<Rightarrow>
             swiotlb_do_find_slots dev
               (foldl (reclaim_slot area_index) mem1
                  (free_slots_from_other_cpu (areas mem1 ! area_index)))
               area_index orig alloc_sz alloc_align_mask)"

text \<open>
  The \<^verbatim>\<open>do ... while (i != start)\<close> loop of \<^verbatim>\<open>swiotlb_find_slots\<close> visits the areas
  \<open>start, start + 1, ..., nareas - 1, 0, ..., start - 1\<close> and stops at the first area
  that has room; \<open>start = cpu & (nareas - 1)\<close> is below \<open>nareas\<close>.
\<close>

fun find_slots_areas ::
  "device \<Rightarrow> io_tlb_mem \<Rightarrow> u64 \<Rightarrow> u64 \<Rightarrow> u32 \<Rightarrow> nat list \<Rightarrow> fault + (nat option \<times> io_tlb_mem)"
where
  "find_slots_areas dev mem orig alloc_sz alloc_align_mask [] = Inr (None, mem)"
| "find_slots_areas dev mem orig alloc_sz alloc_align_mask (i # rest) =
     (case swiotlb_do_find_slots dev mem i orig alloc_sz alloc_align_mask of
        Inl f \<Rightarrow> Inl f
      | Inr (Some index, mem1) \<Rightarrow> Inr (Some index, mem1)
      | Inr (None, mem1) \<Rightarrow> find_slots_areas dev mem1 orig alloc_sz alloc_align_mask rest)"

definition swiotlb_find_slots ::
  "bool \<Rightarrow> u32 \<Rightarrow> device \<Rightarrow> io_tlb_mem \<Rightarrow> u64 \<Rightarrow> u64 \<Rightarrow> u32
     \<Rightarrow> fault + (nat option \<times> io_tlb_mem)"
where
  "swiotlb_find_slots lockless cpu dev mem orig alloc_sz alloc_align_mask =
     (let start_area = unat (cpu AND (of_nat (nareas mem) - 1))
      in if lockless
         then swiotlb_find_slots_lockless cpu dev mem orig alloc_sz alloc_align_mask
         else find_slots_areas dev mem orig alloc_sz alloc_align_mask
                ([start_area ..< nareas mem] @ [0 ..< start_area]))"

fun mem_used_upto :: "io_tlb_area list \<Rightarrow> u64" where
  "mem_used_upto [] = 0"
| "mem_used_upto (a # as) = used a + mem_used_upto as"

definition mem_used :: "io_tlb_mem \<Rightarrow> u64" where
  "mem_used mem = mem_used_upto (take (nareas mem) (areas mem))"

subsection \<open>The bounce copy\<close>

text \<open>
  Memory outside the pool's bookkeeping: the bytes of the staging memory, indexed by their
  distance from \<^verbatim>\<open>mem->vaddr\<close>; the bytes of physical memory, indexed by physical address
  (what \<^verbatim>\<open>phys_to_virt\<close> and the pages of \<^verbatim>\<open>pfn_to_page\<close> give access to); which page
  frames are high memory; and the diagnostics raised so far. \<^verbatim>\<open>dev_WARN_ONCE\<close> and the
  rate-limited warnings are recorded each time their condition is met.
\<close>

datatype warning =
    No_bounce_buffer
  | Invalid_sizes
  | Buffer_full
  | Access_before_mapping_start
  | Buffer_overflow

record machine =
  staging :: "u64 \<Rightarrow> u8"
  ram :: "u64 \<Rightarrow> u8"
  PageHighMem :: "u64 \<Rightarrow> bool"
  dmesg :: "warning list"

datatype dma_data_direction = DMA_BIDIRECTIONAL | DMA_TO_DEVICE | DMA_FROM_DEVICE | DMA_NONE

text \<open>
  Modelled from the spec: the attribute bits of \<^verbatim>\<open>linux/dma-mapping.h\<close> are not in the
  source tree.
\<close>

definition DMA_ATTR_SKIP_CPU_SYNC :: u64 where
  "DMA_ATTR_SKIP_CPU_SYNC = 32"

definition DMA_ATTR_NO_WARN :: u64 where
  "DMA_ATTR_NO_WARN = 256"

definition warn :: "warning \<Rightarrow> machine \<Rightarrow> machine" where
  "warn w mach = mach\<lparr>dmesg := dmesg mach @ [w]\<rparr>"

text \<open>\<open>memcpy dst d src s n\<close>: the \<open>n\<close> bytes of \<open>src\<close> from \<open>s\<close> go to \<open>dst\<close> from \<open>d\<close>.\<close>

definition memcpy :: "(u64 \<Rightarrow> u8) \<Rightarrow> u64 \<Rightarrow> (u64 \<Rightarrow> u8) \<Rightarrow> u64 \<Rightarrow> u64 \<Rightarrow> (u64 \<Rightarrow> u8)" where
  "memcpy dst d src s n = (\<lambda>a. if a - d < n then src (s + (a - d)) else dst a)"

text \<open>
  The \<^verbatim>\<open>while (size)\<close> loop of the high-memory branch, one page of the original buffer per
  round. The offset into the page is \<^verbatim>\<open>orig_addr & ~PAGE_MASK\<close>, twelve bits, and 0 from the
  second round on.
\<close>

function bounce_highmem ::
  "dma_data_direction \<Rightarrow> machine \<Rightarrow> u64 \<Rightarrow> u64 \<Rightarrow> u64 \<Rightarrow> 12 word \<Rightarrow> machine"
where
  "bounce_highmem dir mach sz pfn va offset =
     (if sz = 0 then mach
      else
        let n = min (PAGE_SIZE - ucast offset) sz;
            page = push_bit PAGE_SHIFT pfn + ucast offset
        in bounce_highmem dir
             (if dir = DMA_TO_DEVICE
              then mach\<lparr>staging := memcpy (staging mach) va (ram mach) page n\<rparr>
              else mach\<lparr>ram := memcpy (ram mach) page (staging mach) va n\<rparr>)
             (sz - n) (pfn + 1) (va + n) 0)"
  by pat_completeness auto

termination bounce_highmem
  apply (relation "measure (\<lambda>(dir, mach, sz, pfn, va, offset). unat sz)")
   apply simp
  subgoal premises prems for dir mach sz pfn va offset n page
  proof -
    have sz: "sz \<noteq> 0" and n: "n = min (PAGE_SIZE - ucast offset) sz"
      using prems by auto
    have "unat (ucast offset :: u64) = unat offset"
      using unsigned_less [of offset, where 'a = nat]
      by (simp add: unsigned_ucast_eq take_bit_nat_eq_self_iff)
    then have "unat (ucast offset :: u64) < 4096"
      using unsigned_less [of offset, where 'a = nat] by simp
    then have "(ucast offset :: u64) < 4096"
      by (simp add: word_less_nat_alt)
    then have "PAGE_SIZE - ucast offset \<noteq> (0::u64)"
      by (auto simp: PAGE_SIZE_def)
    with sz n have n0: "n \<noteq> 0" by (auto simp: min_def)
    have le: "n \<le> sz" using n by simp
    have "unat (sz - n) = unat sz - unat n" using le by (simp add: unat_sub)
    moreover have "0 < unat n" using n0 by (simp add: unat_gt_0)
    moreover have "unat n \<le> unat sz" using le by (simp add: word_le_nat_alt)
    ultimately have "unat (sz - n) < unat sz" by linarith
    then show ?thesis by simp
  qed
  done

definition swiotlb_bounce ::
  "device \<Rightarrow> io_tlb_mem \<Rightarrow> machine \<Rightarrow> u64 \<Rightarrow> u64 \<Rightarrow> dma_data_direction \<Rightarrow> fault + machine"
where
  "swiotlb_bounce dev mem mach tlb_addr sz dir =
     (let index = unat (ucast (drop_bit IO_TLB_SHIFT (tlb_addr - start mem)) :: u32)
      in if index \<ge> length (slots mem) then Inl OUT_OF_BOUNDS
         else
           let orig = orig_addr (slots mem ! index);
               alloc_sz = alloc_size (slots mem ! index);
               pfn = drop_bit PAGE_SHIFT orig;
               va = tlb_addr - start mem
           in if orig = INVALID_PHYS_ADDR then Inr mach
              else
                let tlb_offset = (ucast (tlb_addr AND (IO_TLB_SIZE - 1)) :: u32);
                    orig_addr_offset = swiotlb_align_offset dev orig
                in if tlb_offset < orig_addr_offset
                   then Inr (warn Access_before_mapping_start mach)
                   else
                     let tlb_offset = tlb_offset - orig_addr_offset
                     in if ucast tlb_offset > alloc_sz then Inr (warn Buffer_overflow mach)
                        else
                          let orig = orig + ucast tlb_offset;
                              alloc_sz = alloc_sz - ucast tlb_offset;
                              mach1 = (if sz > alloc_sz then warn Buffer_overflow mach else mach);
                              sz = (if sz > alloc_sz then alloc_sz else sz)
                          in if PageHighMem mach1 pfn
                             then Inr (bounce_highmem dir mach1 sz pfn va
                                         (ucast (orig AND (PAGE_SIZE - 1))))
                             else if dir = DMA_TO_DEVICE
                             then Inr (mach1\<lparr>staging := memcpy (staging mach1) va (ram mach1) orig sz\<rparr>)
                             else Inr (mach1\<lparr>ram := memcpy (ram mach1) orig (staging mach1) va sz\<rparr>))"

subsection \<open>Mapping, unmapping, allocating\<close>

definition save_orig_addr :: "u64 \<Rightarrow> nat \<Rightarrow> io_tlb_mem \<Rightarrow> nat \<Rightarrow> io_tlb_mem" where
  "save_orig_addr orig index mem i =
     mem\<lparr>slots := (slots mem)[index + i :=
            (slots mem ! (index + i))\<lparr>orig_addr := slot_addr orig (ucast (of_nat i :: u32))\<rparr>]\<rparr>"

text \<open>
  \<^verbatim>\<open>swiotlb_tbl_map_single\<close> returns the bounce address, the pool and the memory. The loop
  that saves the original addresses writes \<^verbatim>\<open>mem->slots[index + i]\<close> for every \<open>i\<close> below
  \<^verbatim>\<open>nr_slots(alloc_size + offset)\<close>; a write beyond the table is \<open>OUT_OF_BOUNDS\<close>.
\<close>

definition swiotlb_tbl_map_single ::
  "bool \<Rightarrow> u32 \<Rightarrow> device \<Rightarrow> io_tlb_mem option \<Rightarrow> machine \<Rightarrow> u64 \<Rightarrow> u64 \<Rightarrow> u64 \<Rightarrow> u32
     \<Rightarrow> dma_data_direction \<Rightarrow> u64 \<Rightarrow> fault + (u64 \<times> io_tlb_mem option \<times> machine)"
where
  "swiotlb_tbl_map_single lockless cpu dev pool mach orig mapping_size alloc_sz
      alloc_align_mask dir attrs =
     (let offset = swiotlb_align_offset dev orig
      in case pool of
           None \<Rightarrow> Inr (DMA_MAPPING_ERROR, pool, warn No_bounce_buffer mach)
         | Some mem \<Rightarrow>
             if nslabs mem = 0 then Inr (DMA_MAPPING_ERROR, pool, warn No_bounce_buffer mach)
             else if mapping_size > alloc_sz
             then Inr (DMA_MAPPING_ERROR, pool, warn Invalid_sizes mach)
             else
               (case swiotlb_find_slots lockless cpu dev mem orig (alloc_sz + ucast offset)
                       alloc_align_mask of
                  Inl f \<Rightarrow> Inl f
                | Inr (None, mem1) \<Rightarrow>
                    Inr (DMA_MAPPING_ERROR, Some mem1,
                         if attrs AND DMA_ATTR_NO_WARN = 0 then warn Buffer_full mach else mach)
                | Inr (Some index, mem1) \<Rightarrow>
                    let n = unat (nr_slots (alloc_sz + ucast offset))
                    in if index + n > length (slots mem1) then Inl OUT_OF_BOUNDS
                       else
                         let mem2 = foldl (save_orig_addr orig index) mem1 [0..<n];
                             tlb_addr = slot_addr (start mem2) (of_nat index) + ucast offset
                         in (case swiotlb_bounce dev mem2 mach tlb_addr mapping_size
                                    DMA_TO_DEVICE of
                               Inl f \<Rightarrow> Inl f
                             | Inr mach1 \<Rightarrow> Inr (tlb_addr, Some mem2, mach1))))"

text \<open>
  The two loops of \<^verbatim>\<open>swiotlb_release_slots\<close>, one round each: \<open>queue_slot\<close> is the
  lockless release by a CPU that does not own the area, \<open>free_slot\<close> the ordinary release.
\<close>

definition queue_slot :: "nat \<Rightarrow> io_tlb_mem \<Rightarrow> nat \<Rightarrow> io_tlb_mem" where
  "queue_slot aindex mem i =
     mem\<lparr>areas := (areas mem)[aindex := (areas mem ! aindex)
            \<lparr>free_slots_from_other_cpu := i # free_slots_from_other_cpu (areas mem ! aindex)\<rparr>]\<rparr>"

definition free_slot :: "nat \<Rightarrow> io_tlb_mem \<Rightarrow> nat \<Rightarrow> io_tlb_mem" where
  "free_slot aindex mem i =
     mem\<lparr>bitmap := (bitmap mem)[i := True],
         slots := (slots mem)[i := \<lparr>orig_addr = INVALID_PHYS_ADDR, alloc_size = 0\<rparr>],
         areas := (areas mem)[aindex := (areas mem ! aindex)
            \<lparr>free_slots := i # free_slots (areas mem ! aindex)\<rparr>]\<rparr>"

text \<open>
  \<^verbatim>\<open>swiotlb_release_slots\<close>. \<open>index\<close> and \<open>nslots\<close> are C \<^verbatim>\<open>int\<close>s: an index that is
  negative or beyond the table is \<open>OUT_OF_BOUNDS\<close>, and the loops run from
  \<open>index + nslots - 1\<close> down to \<open>index\<close>, not at all when \<open>nslots\<close> is not positive.
\<close>

definition release_index :: "device \<Rightarrow> io_tlb_mem \<Rightarrow> u64 \<Rightarrow> nat" where
  "release_index dev mem tlb_addr =
     unat (ucast (drop_bit IO_TLB_SHIFT
                    (tlb_addr - ucast (swiotlb_align_offset dev tlb_addr) - start mem)) :: u32)"

definition release_nslots :: "device \<Rightarrow> io_tlb_mem \<Rightarrow> u64 \<Rightarrow> int" where
  "release_nslots dev mem tlb_addr =
     sint (ucast (nr_slots (alloc_size (slots mem ! release_index dev mem tlb_addr)
                            + ucast (swiotlb_align_offset dev tlb_addr))) :: u32)"

definition swiotlb_release_slots ::
  "bool \<Rightarrow> u32 \<Rightarrow> device \<Rightarrow> io_tlb_mem \<Rightarrow> u64 \<Rightarrow> fault + io_tlb_mem"
where
  "swiotlb_release_slots lockless cpu dev mem tlb_addr =
     (let index = release_index dev mem tlb_addr
      in if index \<ge> length (slots mem) then Inl OUT_OF_BOUNDS
         else
           let nslots = release_nslots dev mem tlb_addr;
               aindex = index div area_nslabs mem;
               ncpu = unat (cpu AND (of_nat (nareas mem) - 1))
           in if aindex \<ge> nareas mem then Inl BUG
              else if index + nat nslots > length (slots mem) then Inl OUT_OF_BOUNDS
              else if lockless \<and> aindex \<noteq> ncpu
              then Inr (foldl (queue_slot aindex) mem (rev [index ..< index + nat nslots]))
              else
                let mem1 = foldl (free_slot aindex) mem (rev [index ..< index + nat nslots]);
                    area1 = areas mem1 ! aindex
                in Inr (mem1\<lparr>areas := (areas mem1)
                               [aindex := area1\<lparr>used := used area1 - of_int nslots\<rparr>]\<rparr>))"

definition swiotlb_tbl_unmap_single ::
  "bool \<Rightarrow> u32 \<Rightarrow> device \<Rightarrow> io_tlb_mem \<Rightarrow> machine \<Rightarrow> u64 \<Rightarrow> u64 \<Rightarrow> dma_data_direction \<Rightarrow> u64
     \<Rightarrow> fault + (io_tlb_mem \<times> machine)"
where
  "swiotlb_tbl_unmap_single lockless cpu dev mem mach tlb_addr mapping_size dir attrs =
     (case (if attrs AND DMA_ATTR_SKIP_CPU_SYNC = 0
               \<and> (dir = DMA_FROM_DEVICE \<or> dir = DMA_BIDIRECTIONAL)
            then swiotlb_bounce dev mem mach tlb_addr mapping_size DMA_FROM_DEVICE
            else Inr mach) of
        Inl f \<Rightarrow> Inl f
      | Inr mach1 \<Rightarrow>
          (case swiotlb_release_slots lockless cpu dev mem tlb_addr of
             Inl f \<Rightarrow> Inl f
           | Inr mem1 \<Rightarrow> Inr (mem1, mach1)))"

text \<open>
  \<^verbatim>\<open>swiotlb_alloc\<close> returns the page of the first unit, here its page frame number, or
  \<open>None\<close> for \<^verbatim>\<open>NULL\<close>.
\<close>

definition swiotlb_alloc ::
  "bool \<Rightarrow> u32 \<Rightarrow> device \<Rightarrow> io_tlb_mem option \<Rightarrow> u64
     \<Rightarrow> fault + (u64 option \<times> io_tlb_mem option)"
where
  "swiotlb_alloc lockless cpu dev pool sz =
     (case pool of
        None \<Rightarrow> Inr (None, pool)
      | Some mem \<Rightarrow>
          (case swiotlb_find_slots lockless cpu dev mem 0 sz 0 of
             Inl f \<Rightarrow> Inl f
           | Inr (None, mem1) \<Rightarrow> Inr (None, Some mem1)
           | Inr (Some index, mem1) \<Rightarrow>
               Inr (Some (drop_bit PAGE_SHIFT (slot_addr (start mem1) (of_nat index))),
                    Some mem1)))"

subsection \<open>Names for the search's local variables, and the invariant\<close>

definition search_nslots :: "u64 \<Rightarrow> u32" where
  "search_nslots alloc_sz = ucast (nr_slots alloc_sz)"

definition search_tbl_dma_addr :: "device \<Rightarrow> io_tlb_mem \<Rightarrow> u64" where
  "search_tbl_dma_addr dev mem =
     phys_to_dma_unencrypted dev (start mem) AND dma_get_seg_boundary dev"

definition search_align_mask :: "device \<Rightarrow> u32" where
  "search_align_mask dev = dma_get_min_align_mask dev AND NOT (ucast (IO_TLB_SIZE - 1))"

definition search_max_slots :: "device \<Rightarrow> u64" where
  "search_max_slots dev = max (get_max_slots (dma_get_seg_boundary dev)) IO_TLB_SEGSIZE"

definition slot_accepted ::
  "bool list \<Rightarrow> u64 \<Rightarrow> u32 \<Rightarrow> u64 \<Rightarrow> u32 \<Rightarrow> u64 \<Rightarrow> u64 \<Rightarrow> u32 \<Rightarrow> nat \<Rightarrow> bool"
where
  "slot_accepted bm tbl_dma_addr iotlb_align_mask max_slots nslots orig alloc_sz
      alloc_align_mask slot =
     (let slot_index = (of_nat slot :: u32);
          slot_dma_addr = slot_addr tbl_dma_addr (ucast slot_index)
      in (orig = 0 \<or>
            slot_dma_addr AND ucast iotlb_align_mask = orig AND ucast iotlb_align_mask)
         \<and> (alloc_align_mask = 0 \<or> slot_dma_addr AND ucast (alloc_align_mask - 1) = 0)
         \<and> (alloc_sz < PAGE_SIZE \<or> slot_dma_addr AND (PAGE_SIZE - 1) = 0)
         \<and> io_tlb_offset (ucast slot_index) + ucast nslots \<le> IO_TLB_SEGSIZE
         \<and> \<not> iommu_is_span_boundary slot_index nslots (nr_slots tbl_dma_addr) max_slots
         \<and> find_next_zero_bit bm (unat (slot_index + nslots)) (unat slot_index)
               = unat (slot_index + nslots))"

definition claimed :: "device \<Rightarrow> io_tlb_mem \<Rightarrow> nat \<Rightarrow> u64 \<Rightarrow> u64 \<Rightarrow> nat \<Rightarrow> io_tlb_mem" where
  "claimed dev mem area_index orig alloc_sz slot_index =
     (let mem1 = foldl (claim_slot alloc_sz (swiotlb_align_offset dev orig) slot_index) mem
                   [slot_index ..< slot_index + unat (search_nslots alloc_sz)];
          area1 = areas mem1 ! area_index
      in mem1\<lparr>areas := (areas mem1)
             [area_index := area1\<lparr>used := used area1 + ucast (search_nslots alloc_sz)\<rparr>]\<rparr>)"

definition pool_wf :: "io_tlb_mem \<Rightarrow> bool" where
  "pool_wf mem \<longleftrightarrow>
     length (slots mem) = nslabs mem \<and> length (bitmap mem) = nslabs mem
     \<and> length (areas mem) = nareas mem
     \<and> nslabs mem = nareas mem * area_nslabs mem
     \<and> 0 < nareas mem \<and> 0 < area_nslabs mem \<and> nslabs mem < 2 ^ 31
     \<and> (nareas mem = 1 \<or> 128 dvd area_nslabs mem)"

definition area_inv :: "io_tlb_mem \<Rightarrow> nat \<Rightarrow> bool" where
  "area_inv mem a \<longleftrightarrow>
     distinct (free_slots (areas mem ! a))
     \<and> set (free_slots (areas mem ! a))
          = {i. i < nslabs mem \<and> i div area_nslabs mem = a \<and> bitmap mem ! i}
     \<and> distinct (free_slots_from_other_cpu (areas mem ! a))
     \<and> set (free_slots_from_other_cpu (areas mem ! a))
          \<subseteq> {i. i < nslabs mem \<and> i div area_nslabs mem = a \<and> \<not> bitmap mem ! i}
     \<and> unat (used (areas mem ! a)) + length (free_slots (areas mem ! a)) = area_nslabs mem"

definition pool_inv :: "io_tlb_mem \<Rightarrow> bool" where
  "pool_inv mem \<longleftrightarrow>
     pool_wf mem \<and> (\<forall>a < nareas mem. area_inv mem a)
     \<and> (\<forall>i < nslabs mem. bitmap mem ! i \<longrightarrow> orig_addr (slots mem ! i) = INVALID_PHYS_ADDR)"

definition release_ok :: "device \<Rightarrow> io_tlb_mem \<Rightarrow> u64 \<Rightarrow> bool" where
  "release_ok dev mem tlb_addr \<longleftrightarrow>
     (let index = release_index dev mem tlb_addr;
          nslots = release_nslots dev mem tlb_addr;
          aindex = index div area_nslabs mem
      in index < nslabs mem \<and> 0 \<le> nslots
         \<and> (\<forall>i \<in> {index ..< index + nat nslots}.
               i < nslabs mem \<and> i div area_nslabs mem = aindex \<and> \<not> bitmap mem ! i
               \<and> i \<notin> set (free_slots_from_other_cpu (areas mem ! aindex))))"

text \<open>The two outcomes of a release that does not fault.\<close>

definition released :: "io_tlb_mem \<Rightarrow> nat \<Rightarrow> nat \<Rightarrow> io_tlb_mem" where
  "released mem index n =
     (let aindex = index div area_nslabs mem;
          mem1 = foldl (free_slot aindex) mem (rev [index ..< index + n]);
          area1 = areas mem1 ! aindex
      in mem1\<lparr>areas := (areas mem1)[aindex := area1\<lparr>used := used area1 - of_nat n\<rparr>]\<rparr>)"

definition queued :: "io_tlb_mem \<Rightarrow> nat \<Rightarrow> nat \<Rightarrow> io_tlb_mem" where
  "queued mem index n =
     foldl (queue_slot (index div area_nslabs mem)) mem (rev [index ..< index + n])"


text \<open>
  The pools that a run of the allocator can reach: an initialised pool, and from a
  reachable pool the pool after a map, an allocation, an unmap or a release. Releasing is
  a caller's promise (\<open>release_ok\<close>): the units released are allocated units of one
  area that are not already queued for reclamation. The mode is fixed for the whole run.
\<close>

inductive reachable :: "bool \<Rightarrow> io_tlb_mem \<Rightarrow> bool" for lockless :: bool where
  init:
    "0 < an \<Longrightarrow> 0 < na \<Longrightarrow> na * an < 2 ^ 31 \<Longrightarrow> na = 1 \<or> 128 dvd an \<Longrightarrow>
       reachable lockless (swiotlb_init_io_tlb_mem st (na * an) na)"
| map_single:
    "reachable lockless mem \<Longrightarrow>
       swiotlb_tbl_map_single lockless cpu dev (Some mem) mach orig mapping_size alloc_sz
         alloc_align_mask dir attrs = Inr (tlb_addr, Some mem', mach') \<Longrightarrow>
       reachable lockless mem'"
| alloc:
    "reachable lockless mem \<Longrightarrow>
       swiotlb_alloc lockless cpu dev (Some mem) sz = Inr (page, Some mem') \<Longrightarrow>
       reachable lockless mem'"
| unmap_single:
    "reachable lockless mem \<Longrightarrow> release_ok dev mem tlb_addr \<Longrightarrow>
       swiotlb_tbl_unmap_single lockless cpu dev mem mach tlb_addr mapping_size dir attrs
         = Inr (mem', mach') \<Longrightarrow>
       reachable lockless mem'"
| release:
    "reachable lockless mem \<Longrightarrow> release_ok dev mem tlb_addr \<Longrightarrow>
       swiotlb_release_slots lockless cpu dev mem tlb_addr = Inr mem' \<Longrightarrow>
       reachable lockless mem'"

text \<open>What a caller sees of the pool after a map and after an unmap; \<open>None\<close> is a fault.\<close>

definition map_result ::
  "fault + (u64 \<times> io_tlb_mem option \<times> machine) \<Rightarrow> (u64 \<times> io_tlb_mem option) option"
where
  "map_result r = (case r of Inl f \<Rightarrow> None | Inr (addr, pool, mach) \<Rightarrow> Some (addr, pool))"


text \<open>
  Names for what \<^verbatim>\<open>swiotlb_bounce\<close> computes first: the unit of the bounce address, the
  offset of the address within the mapping of that unit (\<open>tlb_offset\<close> after
  \<open>orig_addr_offset\<close> is taken off), and the bytes of the mapping that remain from there.
\<close>

definition bounce_index :: "io_tlb_mem \<Rightarrow> u64 \<Rightarrow> nat" where
  "bounce_index mem tlb_addr = unat (ucast (drop_bit IO_TLB_SHIFT (tlb_addr - start mem)) :: u32)"

definition bounce_offset :: "device \<Rightarrow> io_tlb_mem \<Rightarrow> u64 \<Rightarrow> u32" where
  "bounce_offset dev mem tlb_addr =
     ucast (tlb_addr AND (IO_TLB_SIZE - 1))
       - swiotlb_align_offset dev (orig_addr (slots mem ! bounce_index mem tlb_addr))"

definition bounce_valid :: "device \<Rightarrow> io_tlb_mem \<Rightarrow> u64 \<Rightarrow> u64" where
  "bounce_valid dev mem tlb_addr =
     alloc_size (slots mem ! bounce_index mem tlb_addr) - ucast (bounce_offset dev mem tlb_addr)"

text \<open>
  The property of the segment boundary as the specification words it: the bytes
  \<open>addr, \<dots>, addr + len - 1\<close> cross a multiple of \<open>boundary_mask + 1\<close> when the
  first and the last of them lie in different windows of that size.
\<close>

definition spec_crosses_boundary :: "u64 \<Rightarrow> u64 \<Rightarrow> u64 \<Rightarrow> bool" where
  "spec_crosses_boundary boundary_mask addr len \<longleftrightarrow>
     addr AND NOT boundary_mask \<noteq> (addr + (len - 1)) AND NOT boundary_mask"

subsection \<open>Example devices and pools\<close>

text \<open>
  A device without a minimum-alignment mask and with the 4GiB segment boundary that PCI
  devices have by default; its bus addresses are the physical addresses.
\<close>

definition ex_dev :: device where
  "ex_dev = \<lparr>min_align_mask = 0, segment_boundary_mask = 0xFFFFFFFF,
             bus_address_of = (\<lambda>paddr. paddr)\<rparr>"

text \<open>A restricted pool of 8KiB at 16MiB: four units in one area.\<close>

definition ex_pool :: io_tlb_mem where
  "ex_pool = swiotlb_init_io_tlb_mem 0x1000000 (1 * 4) 1"

text \<open>A pool of 512KiB at 16MiB for two CPUs: two areas of 128 units.\<close>

definition ex_pool2 :: io_tlb_mem where
  "ex_pool2 = swiotlb_init_io_tlb_mem 0x1000000 (2 * 128) 2"

text \<open>
  Memory whose byte at address \<open>a\<close> is the low byte of \<open>a\<close>, an empty staging area, no
  high memory.
\<close>

definition ex_mach :: machine where
  "ex_mach = \<lparr>staging = (\<lambda>a. 0), ram = (\<lambda>a. ucast a), PageHighMem = (\<lambda>pfn. False),
              dmesg = []\<rparr>"




text \<open>
  \<open>ex_pool\<close> after a map of 3000 bytes from \<open>0x5000\<close> (units 0 and 1), and after the unmap
  of that mapping.
\<close>

definition ex_mapped :: io_tlb_mem where
  "ex_mapped = \<lparr>start = 0x1000000, nslabs = 4, nareas = 1, area_nslabs = 4,
      areas = [\<lparr>used = 2, free_slots = [2, 3], free_slots_from_other_cpu = []\<rparr>],
      slots = [\<lparr>orig_addr = 0x5000, alloc_size = 3000\<rparr>,
               \<lparr>orig_addr = 0x5800, alloc_size = 952\<rparr>,
               \<lparr>orig_addr = INVALID_PHYS_ADDR, alloc_size = 0\<rparr>,
               \<lparr>orig_addr = INVALID_PHYS_ADDR, alloc_size = 0\<rparr>],
      bitmap = [False, False, True, True]\<rparr>"



text \<open>
  A device with the 64KiB segment boundary of ATA controllers, and a pool of 128KiB at
  16MiB (64 units in one area), in which the device has mapped 62KiB: units 0 to 30.
\<close>

definition ex_ata :: device where
  "ex_ata = \<lparr>min_align_mask = 0, segment_boundary_mask = 0xFFFF,
             bus_address_of = (\<lambda>paddr. paddr)\<rparr>"

definition ex_pool64 :: io_tlb_mem where
  "ex_pool64 = swiotlb_init_io_tlb_mem 0x1000000 (1 * 64) 1"

definition ex_ata_busy :: io_tlb_mem where
  "ex_ata_busy =
     (case swiotlb_tbl_map_single False 0 ex_ata (Some ex_pool64) ex_mach 0x200000 63488 63488 0
             DMA_TO_DEVICE 0 of
        Inr (addr, Some mem, mach) \<Rightarrow> mem
      | _ \<Rightarrow> ex_pool64)"

section \<open>Properties\<close>

lemma mask7: "(127::u64) = mask 7" by (simp add: mask_eq_exp_minus_1)
lemma mask11: "(2047::u64) = mask 11" by (simp add: mask_eq_exp_minus_1)

lemma unat_and_mask: "unat ((x::'a::len word) AND mask n) = unat x mod 2 ^ n"
  by (simp only: unsigned_take_bit_eq flip: take_bit_eq_mask) (simp add: take_bit_eq_mod)

lemma unat_io_tlb_offset: "unat (io_tlb_offset x) = unat x mod 128"
  by (simp add: io_tlb_offset_def IO_TLB_SEGSIZE_def mask7 unat_and_mask)

lemma unat_ucast_32_64: "unat (ucast (w :: u32) :: u64) = unat w"
  using unsigned_less [of w, where 'a = nat]
  by (simp add: unsigned_ucast_eq take_bit_nat_eq_self_iff)


lemma find_next_zero_bit_full:
  assumes "find_next_zero_bit bm sz off = sz" and "off \<le> i" and "i < sz"
  shows "test_bit bm i"
proof (cases "filter (\<lambda>i. \<not> test_bit bm i) [off..<sz]")
  case Nil
  then have "\<forall>j\<in>set [off..<sz]. test_bit bm j"
    by (simp add: filter_empty_conv)
  with assms show ?thesis by simp
next
  case (Cons j js)
  then have "j \<in> set (filter (\<lambda>i. \<not> test_bit bm i) [off..<sz])" by simp
  then have "j < sz" by simp
  moreover have "find_next_zero_bit bm sz off = j"
    using Cons by (simp add: find_next_zero_bit_def)
  ultimately show ?thesis using assms by simp
qed

lemma free_slots_scan_Some:
  "free_slots_scan bm t iam mx n orig S am xs = Some s \<Longrightarrow>
     s \<in> set xs \<and> slot_accepted bm t iam mx n orig S am s"
proof (induction xs)
  case Nil
  then show ?case by simp
next
  case (Cons x xs)
  show ?case
  proof (cases "slot_accepted bm t iam mx n orig S am x")
    case True
    with Cons.prems have "s = x"
      by (simp add: slot_accepted_def Let_def not_less split: if_splits)
    with True show ?thesis by simp
  next
    case False
    with Cons.prems have "free_slots_scan bm t iam mx n orig S am xs = Some s"
      by (auto simp: slot_accepted_def Let_def not_less split: if_splits)
    with Cons.IH show ?thesis by simp
  qed
qed

lemma foldl_claim_fields:
  "start (foldl (claim_slot S off s) mem is) = start mem"
  "nslabs (foldl (claim_slot S off s) mem is) = nslabs mem"
  "nareas (foldl (claim_slot S off s) mem is) = nareas mem"
  "area_nslabs (foldl (claim_slot S off s) mem is) = area_nslabs mem"
  "length (bitmap (foldl (claim_slot S off s) mem is)) = length (bitmap mem)"
  "length (slots (foldl (claim_slot S off s) mem is)) = length (slots mem)"
  "length (areas (foldl (claim_slot S off s) mem is)) = length (areas mem)"
  by (induction "is" arbitrary: mem; simp add: claim_slot_def list_del_def)+

lemma removeAll_filter: "removeAll i xs = filter (\<lambda>x. x \<noteq> i) xs"
  by (induction xs) auto

lemma foldl_claim_bitmap:
  "j < length (bitmap mem) \<Longrightarrow>
     bitmap (foldl (claim_slot S off s) mem is) ! j = (bitmap mem ! j \<and> j \<notin> set is)"
proof (induction "is" arbitrary: mem)
  case Nil
  then show ?case by simp
next
  case (Cons i "is")
  let ?m = "claim_slot S off s mem i"
  have bm: "bitmap ?m = (bitmap mem)[i := False]"
    by (simp add: claim_slot_def)
  have "bitmap (foldl (claim_slot S off s) ?m is) ! j = (bitmap ?m ! j \<and> j \<notin> set is)"
    using Cons.prems by (intro Cons.IH) (simp add: bm)
  moreover have "bitmap ?m ! j = (bitmap mem ! j \<and> j \<noteq> i)"
    unfolding bm using Cons.prems by (cases "i = j") simp_all
  ultimately show ?case by auto
qed

lemma foldl_claim_slots:
  "j < length (slots mem) \<Longrightarrow>
     slots (foldl (claim_slot S off s) mem is) ! j =
       (if j \<in> set is
        then (slots mem ! j)\<lparr>alloc_size :=
               S - ucast (off + push_bit IO_TLB_SHIFT ((of_nat j :: u32) - of_nat s))\<rparr>
        else slots mem ! j)"
proof (induction "is" arbitrary: mem)
  case Nil
  then show ?case by simp
next
  case (Cons i "is")
  let ?m = "claim_slot S off s mem i"
  have sl: "slots ?m =
          (slots mem)[i := (slots mem ! i)\<lparr>alloc_size :=
             S - ucast (off + push_bit IO_TLB_SHIFT ((of_nat i :: u32) - of_nat s))\<rparr>]"
    by (simp add: claim_slot_def)
  have "slots (foldl (claim_slot S off s) ?m is) ! j =
       (if j \<in> set is
        then (slots ?m ! j)\<lparr>alloc_size :=
               S - ucast (off + push_bit IO_TLB_SHIFT ((of_nat j :: u32) - of_nat s))\<rparr>
        else slots ?m ! j)"
    using Cons.prems by (intro Cons.IH) (simp add: sl)
  moreover have "slots ?m ! j =
       (if j = i
        then (slots mem ! j)\<lparr>alloc_size :=
               S - ucast (off + push_bit IO_TLB_SHIFT ((of_nat j :: u32) - of_nat s))\<rparr>
        else slots mem ! j)"
    unfolding sl using Cons.prems by (cases "i = j") simp_all
  ultimately show ?case by auto
qed

lemma foldl_claim_areas:
  "areas (foldl (claim_slot S off s) mem is) =
     map (\<lambda>ar. ar\<lparr>free_slots := filter (\<lambda>i. i \<notin> set is) (free_slots ar),
                  free_slots_from_other_cpu :=
                    filter (\<lambda>i. i \<notin> set is) (free_slots_from_other_cpu ar)\<rparr>) (areas mem)"
proof (induction "is" arbitrary: mem)
  case Nil
  then show ?case by (simp add: map_idI)
next
  case (Cons i "is")
  have "areas (claim_slot S off s mem i) = map (list_del_area i) (areas mem)"
    by (simp add: claim_slot_def list_del_def)
  then show ?case
    by (simp add: Cons.IH list_del_area_def removeAll_filter conj_commute)
qed

lemma do_find_slots_cases:
  assumes "swiotlb_do_find_slots dev mem a orig S am = r"
  shows "r = Inl BUG \<or> (r = Inr (None, mem) \<and> a < nareas mem) \<or>
         (\<exists>s. r = Inr (Some s, claimed dev mem a orig S s) \<and> a < nareas mem
              \<and> search_nslots S \<noteq> 0
              \<and> s \<in> set (free_slots (areas mem ! a))
              \<and> slot_accepted (bitmap mem) (search_tbl_dma_addr dev mem) (search_align_mask dev)
                   (search_max_slots dev) (search_nslots S) orig S am s)"
proof -
  let ?scan = "free_slots_scan (bitmap mem) (search_tbl_dma_addr dev mem) (search_align_mask dev)
                 (search_max_slots dev) (search_nslots S) orig S am (free_slots (areas mem ! a))"
  show ?thesis
  proof (cases ?scan)
    case None
    with assms show ?thesis
      by (auto simp: swiotlb_do_find_slots_def Let_def search_nslots_def search_tbl_dma_addr_def
            search_align_mask_def search_max_slots_def split: if_splits)
  next
    case (Some s)
    from free_slots_scan_Some [OF Some] Some assms show ?thesis
      by (auto simp: swiotlb_do_find_slots_def Let_def search_nslots_def search_tbl_dma_addr_def
            search_align_mask_def search_max_slots_def claimed_def split: if_splits)
  qed
qed

lemma accepted_run:
  assumes acc: "slot_accepted bm t iam mx n orig S am s" and s: "s < 2 ^ 31"
  shows "s mod 128 + unat n \<le> 128"
    and "\<And>i. s \<le> i \<Longrightarrow> i < s + unat n \<Longrightarrow> test_bit bm i"
proof -
  have us: "unat (of_nat s :: u32) = s" using s by (simp add: unat_of_nat)
  have le: "io_tlb_offset (ucast (of_nat s :: u32)) + ucast n \<le> IO_TLB_SEGSIZE"
    and fz: "find_next_zero_bit bm (unat ((of_nat s :: u32) + n)) (unat (of_nat s :: u32))
               = unat ((of_nat s :: u32) + n)"
    using acc by (simp_all add: slot_accepted_def Let_def)
  have off: "unat (io_tlb_offset (ucast (of_nat s :: u32))) = s mod 128"
    by (simp add: unat_io_tlb_offset unat_ucast_32_64 us)
  have n32: "unat n < 2 ^ 32" using unsigned_less [of n, where 'a = nat] by simp
  have "unat (io_tlb_offset (ucast (of_nat s :: u32)) + (ucast n :: u64))
          = s mod 128 + unat n"
    using n32 by (subst unat_add_lem [THEN iffD1]) (simp_all add: off unat_ucast_32_64)
  with le show seg: "s mod 128 + unat n \<le> 128"
    by (simp add: word_le_nat_alt IO_TLB_SEGSIZE_def)
  have "unat ((of_nat s :: u32) + n) = s + unat n"
    using s seg by (subst unat_add_lem [THEN iffD1]) (simp_all add: us)
  with fz us have "find_next_zero_bit bm (s + unat n) s = s + unat n" by simp
  then show "\<And>i. s \<le> i \<Longrightarrow> i < s + unat n \<Longrightarrow> test_bit bm i"
    by (rule find_next_zero_bit_full)
qed

lemma run_same_area:
  assumes wf: "na = 1 \<or> 128 dvd an" and an: "0 < (an::nat)"
    and seg: "s mod 128 + n \<le> 128" and i: "s \<le> i" "i < s + n" "i < na * an"
  shows "i div an = s div an"
proof (cases "128 dvd an")
  case True
  then obtain k where k: "an = 128 * k" by (auto simp: dvd_def)
  have "i div 128 = s div 128"
  proof -
    have "s = 128 * (s div 128) + s mod 128" by simp
    with seg i have "128 * (s div 128) \<le> i" "i < 128 * (s div 128) + 128" by linarith+
    then show ?thesis
      by (metis add.commute div_nat_eqI mult.commute mult_Suc)
  qed
  then show ?thesis by (simp add: k div_mult2_eq)
next
  case False
  with wf have "na = 1" by simp
  with i have "i < an" "s < an" by simp_all
  then show ?thesis by simp
qed

lemma length_filter_notin:
  assumes "distinct xs" and "A \<subseteq> set xs"
  shows "length (filter (\<lambda>i. i \<notin> A) xs) = length xs - card A"
proof -
  have fin: "finite A" using assms(2) by (rule finite_subset) simp
  have "distinct (filter (\<lambda>i. i \<notin> A) xs)" using assms(1) by simp
  then have "length (filter (\<lambda>i. i \<notin> A) xs) = card (set (filter (\<lambda>i. i \<notin> A) xs))"
    by (rule distinct_card [symmetric])
  also have "set (filter (\<lambda>i. i \<notin> A) xs) = set xs - A" by auto
  also have "card (set xs - A) = card (set xs) - card A"
    using fin assms(2) by (simp add: card_Diff_subset)
  also have "card (set xs) = length xs" using assms(1) by (simp add: distinct_card)
  finally show ?thesis .
qed

lemma claimed_fields:
  "start (claimed dev mem a orig S s) = start mem"
  "nslabs (claimed dev mem a orig S s) = nslabs mem"
  "nareas (claimed dev mem a orig S s) = nareas mem"
  "area_nslabs (claimed dev mem a orig S s) = area_nslabs mem"
  "length (bitmap (claimed dev mem a orig S s)) = length (bitmap mem)"
  "length (slots (claimed dev mem a orig S s)) = length (slots mem)"
  "length (areas (claimed dev mem a orig S s)) = length (areas mem)"
  by (simp_all add: claimed_def Let_def foldl_claim_fields)

lemma claimed_bitmap:
  "j < length (bitmap mem) \<Longrightarrow>
     bitmap (claimed dev mem a orig S s) ! j
       = (bitmap mem ! j \<and> \<not> (s \<le> j \<and> j < s + unat (search_nslots S)))"
  by (simp add: claimed_def Let_def foldl_claim_bitmap)

lemma claimed_slots:
  "j < length (slots mem) \<Longrightarrow>
     slots (claimed dev mem a orig S s) ! j =
       (if s \<le> j \<and> j < s + unat (search_nslots S)
        then (slots mem ! j)\<lparr>alloc_size :=
               S - ucast (swiotlb_align_offset dev orig
                          + push_bit IO_TLB_SHIFT ((of_nat j :: u32) - of_nat s))\<rparr>
        else slots mem ! j)"
  by (simp add: claimed_def Let_def foldl_claim_slots)

lemma claimed_area:
  assumes "b < length (areas mem)"
  shows "areas (claimed dev mem a orig S s) ! b =
     (areas mem ! b)\<lparr>
        used := (if b = a then used (areas mem ! b) + ucast (search_nslots S)
                 else used (areas mem ! b)),
        free_slots := filter (\<lambda>i. i \<notin> {s ..< s + unat (search_nslots S)})
                        (free_slots (areas mem ! b)),
        free_slots_from_other_cpu :=
          filter (\<lambda>i. i \<notin> {s ..< s + unat (search_nslots S)})
            (free_slots_from_other_cpu (areas mem ! b))\<rparr>"
  using assms
  by (cases "b = a") (simp_all add: claimed_def Let_def foldl_claim_areas)

lemma pool_inv_claimed:
  assumes inv: "pool_inv mem" and a: "a < nareas mem"
    and s: "s \<in> set (free_slots (areas mem ! a))"
    and acc: "slot_accepted (bitmap mem) t iam mx (search_nslots S) orig S am s"
  shows "pool_inv (claimed dev mem a orig S s)"
proof -
  let ?n = "unat (search_nslots S)"
  let ?R = "{s ..< s + ?n}"
  let ?m = "claimed dev mem a orig S s"
  let ?an = "area_nslabs mem"
  from inv have wf: "pool_wf mem"
    and ai: "\<And>b. b < nareas mem \<Longrightarrow> area_inv mem b"
    and oi: "\<And>i. i < nslabs mem \<Longrightarrow> bitmap mem ! i \<Longrightarrow>
               orig_addr (slots mem ! i) = INVALID_PHYS_ADDR"
    by (simp_all add: pool_inv_def)
  from wf have len: "length (slots mem) = nslabs mem" "length (bitmap mem) = nslabs mem"
      "length (areas mem) = nareas mem"
    and geo: "nslabs mem = nareas mem * ?an" "0 < ?an" "nslabs mem < 2 ^ 31"
      "nareas mem = 1 \<or> 128 dvd ?an"
    by (simp_all add: pool_wf_def)
  have an31: "?an < 2 ^ 31"
  proof -
    from wf obtain k where "nareas mem = Suc k"
      by (cases "nareas mem") (auto simp: pool_wf_def)
    then have "nslabs mem = ?an + k * ?an" using geo(1) by simp
    then show ?thesis using geo(3) by linarith
  qed
  from ai [OF a] s have s_in: "s < nslabs mem" "s div ?an = a"
    by (auto simp: area_inv_def)
  with geo have s31: "s < 2 ^ 31" by simp
  note run = accepted_run [OF acc s31]
  have R_bits: "i < nslabs mem \<and> bitmap mem ! i" if "i \<in> ?R" for i
    using run(2) [of i] that by (simp add: test_bit_def len)
  have R_area: "i div ?an = a" if "i \<in> ?R" for i
    using run_same_area [OF geo(4) geo(2) run(1), of i] that R_bits [OF that] geo(1) s_in
    by simp
  have R_sub: "?R \<subseteq> set (free_slots (areas mem ! a))"
    using ai [OF a] R_bits R_area by (auto simp: area_inv_def)
  have wf': "pool_wf ?m"
    using wf by (simp add: pool_wf_def claimed_fields)
  have bm': "bitmap ?m ! j = (bitmap mem ! j \<and> j \<notin> ?R)" if "j < nslabs mem" for j
    using that by (simp add: claimed_bitmap len)
  have area': "area_inv ?m b" if b: "b < nareas mem" for b
  proof -
    let ?A = "areas mem ! b"
    have A': "areas ?m ! b = ?A\<lparr>
        used := (if b = a then used ?A + ucast (search_nslots S) else used ?A),
        free_slots := filter (\<lambda>i. i \<notin> ?R) (free_slots ?A),
        free_slots_from_other_cpu := filter (\<lambda>i. i \<notin> ?R) (free_slots_from_other_cpu ?A)\<rparr>"
      using b by (simp add: claimed_area len)
    from ai [OF b] have d: "distinct (free_slots ?A)"
      and f: "set (free_slots ?A) = {i. i < nslabs mem \<and> i div ?an = b \<and> bitmap mem ! i}"
      and d2: "distinct (free_slots_from_other_cpu ?A)"
      and o: "set (free_slots_from_other_cpu ?A)
                \<subseteq> {i. i < nslabs mem \<and> i div ?an = b \<and> \<not> bitmap mem ! i}"
      and c: "unat (used ?A) + length (free_slots ?A) = ?an"
      by (simp_all add: area_inv_def)
    have 1: "set (filter (\<lambda>i. i \<notin> ?R) (free_slots ?A))
              = {i. i < nslabs mem \<and> i div ?an = b \<and> bitmap ?m ! i}"
      using f bm' by auto
    have 2: "set (filter (\<lambda>i. i \<notin> ?R) (free_slots_from_other_cpu ?A))
              \<subseteq> {i. i < nslabs mem \<and> i div ?an = b \<and> \<not> bitmap ?m ! i}"
      using o bm' by auto
    have 3: "unat (if b = a then used ?A + ucast (search_nslots S) else used ?A)
               + length (filter (\<lambda>i. i \<notin> ?R) (free_slots ?A)) = ?an"
    proof (cases "b = a")
      case True
      have lf: "length (filter (\<lambda>i. i \<notin> ?R) (free_slots ?A)) = length (free_slots ?A) - ?n"
        using length_filter_notin [OF d, of ?R] R_sub True by simp
      have "card ?R \<le> card (set (free_slots ?A))"
        using R_sub True by (intro card_mono) simp_all
      then have nle: "?n \<le> length (free_slots ?A)"
        using d by (simp add: distinct_card)
      have "unat (used ?A) + ?n < 2 ^ 64"
        using c nle an31 by simp
      then have "unat (used ?A + ucast (search_nslots S)) = unat (used ?A) + ?n"
        by (subst unat_add_lem [THEN iffD1]) (simp_all add: unat_ucast_32_64)
      with True lf nle c show ?thesis by simp
    next
      case False
      have "i \<notin> ?R" if "i \<in> set (free_slots ?A)" for i
        using that f R_area [of i] False by auto
      then have "filter (\<lambda>i. i \<notin> ?R) (free_slots ?A) = free_slots ?A"
        by (simp add: filter_id_conv)
      with False c show ?thesis by simp
    qed
    show ?thesis
      unfolding area_inv_def A' using d d2 1 2 3
      by (simp add: claimed_fields)
  qed
  have orig': "orig_addr (slots ?m ! i) = INVALID_PHYS_ADDR"
    if "i < nslabs mem" "bitmap ?m ! i" for i
  proof -
    from that bm' have "bitmap mem ! i" by simp
    with that oi have "orig_addr (slots mem ! i) = INVALID_PHYS_ADDR" by simp
    moreover have "orig_addr (slots ?m ! i) = orig_addr (slots mem ! i)"
      using that by (simp add: claimed_slots len)
    ultimately show ?thesis by simp
  qed
  show ?thesis
    unfolding pool_inv_def using wf' area' orig' by (simp add: claimed_fields)
qed

lemma pool_inv_do_find_slots:
  assumes "pool_inv mem"
    and "swiotlb_do_find_slots dev mem a orig S am = Inr (r, mem')"
  shows "pool_inv mem'"
  using do_find_slots_cases [OF assms(2)] assms(1)
  by (auto intro: pool_inv_claimed)

lemma reclaim_slot_fields:
  "start (reclaim_slot a mem x) = start mem"
  "nslabs (reclaim_slot a mem x) = nslabs mem"
  "nareas (reclaim_slot a mem x) = nareas mem"
  "area_nslabs (reclaim_slot a mem x) = area_nslabs mem"
  "length (bitmap (reclaim_slot a mem x)) = length (bitmap mem)"
  "length (slots (reclaim_slot a mem x)) = length (slots mem)"
  "length (areas (reclaim_slot a mem x)) = length (areas mem)"
  "bitmap (reclaim_slot a mem x) = (bitmap mem)[x := True]"
  "slots (reclaim_slot a mem x)
     = (slots mem)[x := \<lparr>orig_addr = INVALID_PHYS_ADDR, alloc_size = 0\<rparr>]"
  by (simp_all add: reclaim_slot_def Let_def list_del_def)

lemma reclaim_slot_area:
  assumes "b < length (areas mem)"
  shows "areas (reclaim_slot a mem x) ! b =
     (areas mem ! b)\<lparr>
        used := (if b = a then used (areas mem ! b) - 1 else used (areas mem ! b)),
        free_slots := (if b = a then x # filter (\<lambda>i. i \<noteq> x) (free_slots (areas mem ! b))
                       else filter (\<lambda>i. i \<noteq> x) (free_slots (areas mem ! b))),
        free_slots_from_other_cpu :=
          filter (\<lambda>i. i \<noteq> x) (free_slots_from_other_cpu (areas mem ! b))\<rparr>"
  using assms
  by (cases "b = a")
     (simp_all add: reclaim_slot_def Let_def list_del_def list_del_area_def removeAll_filter)

lemma foldl_reclaim_fields:
  "start (foldl (reclaim_slot a) mem xs) = start mem"
  "nslabs (foldl (reclaim_slot a) mem xs) = nslabs mem"
  "nareas (foldl (reclaim_slot a) mem xs) = nareas mem"
  "area_nslabs (foldl (reclaim_slot a) mem xs) = area_nslabs mem"
  "length (bitmap (foldl (reclaim_slot a) mem xs)) = length (bitmap mem)"
  "length (slots (foldl (reclaim_slot a) mem xs)) = length (slots mem)"
  "length (areas (foldl (reclaim_slot a) mem xs)) = length (areas mem)"
  by (induction xs arbitrary: mem; simp add: reclaim_slot_fields)+

lemma foldl_reclaim_bitmap:
  "j < length (bitmap mem) \<Longrightarrow>
     bitmap (foldl (reclaim_slot a) mem xs) ! j = (bitmap mem ! j \<or> j \<in> set xs)"
proof (induction xs arbitrary: mem)
  case Nil
  then show ?case by simp
next
  case (Cons x xs)
  let ?m = "reclaim_slot a mem x"
  have "bitmap (foldl (reclaim_slot a) ?m xs) ! j = (bitmap ?m ! j \<or> j \<in> set xs)"
    using Cons.prems by (intro Cons.IH) (simp add: reclaim_slot_fields)
  moreover have "bitmap ?m ! j = (bitmap mem ! j \<or> j = x)"
    using Cons.prems by (cases "x = j") (simp_all add: reclaim_slot_fields)
  ultimately show ?case by auto
qed

lemma foldl_reclaim_slots:
  "j < length (slots mem) \<Longrightarrow>
     slots (foldl (reclaim_slot a) mem xs) ! j =
       (if j \<in> set xs then \<lparr>orig_addr = INVALID_PHYS_ADDR, alloc_size = 0\<rparr>
        else slots mem ! j)"
proof (induction xs arbitrary: mem)
  case Nil
  then show ?case by simp
next
  case (Cons x xs)
  let ?m = "reclaim_slot a mem x"
  have "slots (foldl (reclaim_slot a) ?m xs) ! j =
       (if j \<in> set xs then \<lparr>orig_addr = INVALID_PHYS_ADDR, alloc_size = 0\<rparr>
        else slots ?m ! j)"
    using Cons.prems by (intro Cons.IH) (simp add: reclaim_slot_fields)
  moreover have "slots ?m ! j =
       (if j = x then \<lparr>orig_addr = INVALID_PHYS_ADDR, alloc_size = 0\<rparr> else slots mem ! j)"
    using Cons.prems by (cases "x = j") (simp_all add: reclaim_slot_fields)
  ultimately show ?case by auto
qed

lemma foldl_reclaim_area:
  assumes "b < length (areas mem)" and "distinct xs"
  shows "areas (foldl (reclaim_slot a) mem xs) ! b =
     (areas mem ! b)\<lparr>
        used := (if b = a then used (areas mem ! b) - of_nat (length xs)
                 else used (areas mem ! b)),
        free_slots := (if b = a
                       then rev xs @ filter (\<lambda>i. i \<notin> set xs) (free_slots (areas mem ! b))
                       else filter (\<lambda>i. i \<notin> set xs) (free_slots (areas mem ! b))),
        free_slots_from_other_cpu :=
          filter (\<lambda>i. i \<notin> set xs) (free_slots_from_other_cpu (areas mem ! b))\<rparr>"
  using assms
proof (induction xs arbitrary: mem)
  case Nil
  then show ?case by simp
next
  case (Cons x xs)
  let ?m = "reclaim_slot a mem x"
  have b: "b < length (areas ?m)" using Cons.prems by (simp add: reclaim_slot_fields)
  have d: "distinct xs" "x \<notin> set xs" using Cons.prems by simp_all
  have flt: "filter (\<lambda>i. i \<notin> set xs) (filter (\<lambda>i. i \<noteq> x) ys)
               = filter (\<lambda>i. i \<noteq> x \<and> i \<notin> set xs) ys" for ys :: "nat list"
    by (simp add: conj_commute)
  have IH: "areas (foldl (reclaim_slot a) ?m xs) ! b =
     (areas ?m ! b)\<lparr>
        used := (if b = a then used (areas ?m ! b) - of_nat (length xs)
                 else used (areas ?m ! b)),
        free_slots := (if b = a
                       then rev xs @ filter (\<lambda>i. i \<notin> set xs) (free_slots (areas ?m ! b))
                       else filter (\<lambda>i. i \<notin> set xs) (free_slots (areas ?m ! b))),
        free_slots_from_other_cpu :=
          filter (\<lambda>i. i \<notin> set xs) (free_slots_from_other_cpu (areas ?m ! b))\<rparr>"
    by (rule Cons.IH [OF b d(1)])
  note step = reclaim_slot_area [OF Cons.prems(1), of a x]
  show ?case
  proof (cases "b = a")
    case True
    show ?thesis
      unfolding foldl_Cons IH step using d True by (simp add: flt)
  next
    case False
    show ?thesis
      unfolding foldl_Cons IH step using d False by (simp add: flt)
  qed
qed

lemma div_eq_iff_range:
  assumes "0 < (an::nat)"
  shows "i div an = a \<longleftrightarrow> a * an \<le> i \<and> i < a * an + an"
proof
  assume eq: "i div an = a"
  have "i div an * an \<le> i" by (rule div_times_less_eq_dividend)
  moreover have "i < an + i div an * an" by (rule dividend_less_div_times [OF assms])
  ultimately show "a * an \<le> i \<and> i < a * an + an" using eq by simp
next
  assume "a * an \<le> i \<and> i < a * an + an"
  then show "i div an = a"
    by (intro div_nat_eqI) (simp_all add: mult.commute)
qed

lemma card_area:
  assumes "a < na" and "0 < (an::nat)"
  shows "card {i. i < na * an \<and> i div an = a} = an"
proof -
  have "(a + 1) * an \<le> na * an" using assms by (intro mult_le_mono1) simp
  then have up: "a * an + an \<le> na * an" by simp
  have "{i. i < na * an \<and> i div an = a} = {a * an ..< a * an + an}"
    using up by (auto simp: div_eq_iff_range [OF assms(2)])
  then show ?thesis by simp
qed

lemma unat_sub_of_nat:
  assumes "k \<le> unat (w :: u64)"
  shows "unat (w - of_nat k) = unat w - k"
proof -
  have k64: "k < 2 ^ 64" using assms unsigned_less [of w, where 'a = nat]
    by (simp del: unsigned_less)
  then have uk: "unat (of_nat k :: u64) = k" by (simp add: unat_of_nat)
  then have "(of_nat k :: u64) \<le> w" using assms by (simp add: word_le_nat_alt)
  then show ?thesis by (simp add: unat_sub uk)
qed

lemma pool_inv_reclaim:
  assumes inv: "pool_inv mem" and a: "a < nareas mem"
  shows "pool_inv (foldl (reclaim_slot a) mem (free_slots_from_other_cpu (areas mem ! a)))"
proof -
  let ?xs = "free_slots_from_other_cpu (areas mem ! a)"
  let ?m = "foldl (reclaim_slot a) mem ?xs"
  let ?an = "area_nslabs mem"
  from inv have wf: "pool_wf mem"
    and ai: "\<And>b. b < nareas mem \<Longrightarrow> area_inv mem b"
    and oi: "\<And>i. i < nslabs mem \<Longrightarrow> bitmap mem ! i \<Longrightarrow>
               orig_addr (slots mem ! i) = INVALID_PHYS_ADDR"
    by (simp_all add: pool_inv_def)
  from wf have len: "length (slots mem) = nslabs mem" "length (bitmap mem) = nslabs mem"
      "length (areas mem) = nareas mem"
    and geo: "nslabs mem = nareas mem * ?an" "0 < ?an" "nslabs mem < 2 ^ 31"
    by (simp_all add: pool_wf_def)
  from ai [OF a] have dx: "distinct ?xs"
    and xs: "set ?xs \<subseteq> {i. i < nslabs mem \<and> i div ?an = a \<and> \<not> bitmap mem ! i}"
    and da: "distinct (free_slots (areas mem ! a))"
    and fa: "set (free_slots (areas mem ! a))
               = {i. i < nslabs mem \<and> i div ?an = a \<and> bitmap mem ! i}"
    and ca: "unat (used (areas mem ! a)) + length (free_slots (areas mem ! a)) = ?an"
    by (simp_all add: area_inv_def)
  have wf': "pool_wf ?m"
    using wf by (simp add: pool_wf_def foldl_reclaim_fields)
  have bm': "bitmap ?m ! j = (bitmap mem ! j \<or> j \<in> set ?xs)" if "j < nslabs mem" for j
    using that by (simp add: foldl_reclaim_bitmap len)
  have area': "area_inv ?m b" if b: "b < nareas mem" for b
  proof -
    let ?A = "areas mem ! b"
    have A': "areas ?m ! b = ?A\<lparr>
        used := (if b = a then used ?A - of_nat (length ?xs) else used ?A),
        free_slots := (if b = a then rev ?xs @ filter (\<lambda>i. i \<notin> set ?xs) (free_slots ?A)
                       else filter (\<lambda>i. i \<notin> set ?xs) (free_slots ?A)),
        free_slots_from_other_cpu :=
          filter (\<lambda>i. i \<notin> set ?xs) (free_slots_from_other_cpu ?A)\<rparr>"
      using b dx by (simp add: foldl_reclaim_area len)
    from ai [OF b] have d: "distinct (free_slots ?A)"
      and f: "set (free_slots ?A) = {i. i < nslabs mem \<and> i div ?an = b \<and> bitmap mem ! i}"
      and d2: "distinct (free_slots_from_other_cpu ?A)"
      and o: "set (free_slots_from_other_cpu ?A)
                \<subseteq> {i. i < nslabs mem \<and> i div ?an = b \<and> \<not> bitmap mem ! i}"
      and c: "unat (used ?A) + length (free_slots ?A) = ?an"
      by (simp_all add: area_inv_def)
    have keep: "filter (\<lambda>i. i \<notin> set ?xs) (free_slots ?A) = free_slots ?A"
      using f xs by (auto simp: filter_id_conv)
    show ?thesis
    proof (cases "b = a")
      case True
      have disj: "set ?xs \<inter> set (free_slots ?A) = {}" using f xs by auto
      have 1: "distinct (rev ?xs @ free_slots ?A)" using dx d disj by auto
      have 2: "set (rev ?xs @ free_slots ?A)
                 = {i. i < nslabs mem \<and> i div ?an = b \<and> bitmap ?m ! i}"
        using f xs bm' True by auto
      have 3: "filter (\<lambda>i. i \<notin> set ?xs) (free_slots_from_other_cpu ?A) = []"
        using True by simp
      have "card (set ?xs \<union> set (free_slots ?A))
              \<le> card {i. i < nareas mem * ?an \<and> i div ?an = a}"
        using f xs True geo(1) by (intro card_mono) auto
      also have "\<dots> = ?an" by (rule card_area [OF a geo(2)])
      finally have "length ?xs + length (free_slots ?A) \<le> ?an"
        using dx d disj by (simp add: card_Un_disjoint distinct_card)
      with c True have le: "length ?xs \<le> unat (used ?A)" by simp
      have 4: "unat (used ?A - of_nat (length ?xs)) + length (rev ?xs @ free_slots ?A) = ?an"
        using c le by (simp add: unat_sub_of_nat)
      show ?thesis
        unfolding area_inv_def A' keep using True 1 2 3 4
        by (simp add: foldl_reclaim_fields)
    next
      case False
      have nb: "i \<notin> set ?xs" if "i div ?an = b" for i using that xs False by auto
      have 2: "set (free_slots ?A) = {i. i < nslabs mem \<and> i div ?an = b \<and> bitmap ?m ! i}"
        using f bm' nb by auto
      have 3: "filter (\<lambda>i. i \<notin> set ?xs) (free_slots_from_other_cpu ?A)
                 = free_slots_from_other_cpu ?A"
        using o nb by (auto simp: filter_id_conv)
      have 4: "set (free_slots_from_other_cpu ?A)
                \<subseteq> {i. i < nslabs mem \<and> i div ?an = b \<and> \<not> bitmap ?m ! i}"
        using o bm' nb by auto
      show ?thesis
        unfolding area_inv_def A' keep using False d d2 2 3 4 c
        by (simp add: foldl_reclaim_fields)
    qed
  qed
  have orig': "orig_addr (slots ?m ! i) = INVALID_PHYS_ADDR"
    if "i < nslabs mem" "bitmap ?m ! i" for i
    using that bm' [of i] oi [of i] by (auto simp: foldl_reclaim_slots len)
  show ?thesis
    unfolding pool_inv_def using wf' area' orig' by (simp add: foldl_reclaim_fields)
qed

lemma find_slots_areas_result:
  assumes "find_slots_areas dev mem orig S am as = Inr (r, mem')"
  shows "(r = None \<and> mem' = mem) \<or>
         (\<exists>a s. r = Some s \<and> swiotlb_do_find_slots dev mem a orig S am = Inr (Some s, mem'))"
  using assms
proof (induction as)
  case Nil
  then show ?case by simp
next
  case (Cons a as)
  show ?case
  proof (cases "swiotlb_do_find_slots dev mem a orig S am")
    case (Inl f)
    with Cons.prems show ?thesis by simp
  next
    case (Inr p)
    obtain r1 mem1 where p: "p = (r1, mem1)" by (cases p)
    show ?thesis
    proof (cases r1)
      case None
      with Inr p do_find_slots_cases [of dev mem a orig S am "Inr (None, mem1)"]
      have "mem1 = mem" by auto
      with None Inr p Cons show ?thesis by simp
    next
      case (Some s)
      with Inr p Cons.prems have "r = Some s" "mem' = mem1" by simp_all
      with Some Inr p show ?thesis by auto
    qed
  qed
qed

lemma find_slots_result:
  assumes inv: "pool_inv mem"
    and res: "swiotlb_find_slots lockless cpu dev mem orig S am = Inr (r, mem')"
  shows "(r = None \<and> pool_inv mem' \<and> start mem' = start mem \<and> nslabs mem' = nslabs mem) \<or>
         (\<exists>a s m0. r = Some s \<and> pool_inv m0 \<and> start m0 = start mem
              \<and> nslabs m0 = nslabs mem \<and> nareas m0 = nareas mem
              \<and> area_nslabs m0 = area_nslabs mem
              \<and> swiotlb_do_find_slots dev m0 a orig S am = Inr (Some s, mem'))"
proof (cases lockless)
  case False
  with res find_slots_areas_result [of dev mem orig S am _ r mem'] inv show ?thesis
    by (auto simp: swiotlb_find_slots_def Let_def)
next
  case True
  let ?a = "unat (cpu AND (of_nat (nareas mem) - 1))"
  from True res have res': "swiotlb_find_slots_lockless cpu dev mem orig S am = Inr (r, mem')"
    by (simp add: swiotlb_find_slots_def)
  show ?thesis
  proof (cases "swiotlb_do_find_slots dev mem ?a orig S am")
    case (Inl f)
    with res' show ?thesis by (simp add: swiotlb_find_slots_lockless_def)
  next
    case (Inr p)
    obtain r1 mem1 where p: "p = (r1, mem1)" by (cases p)
    show ?thesis
    proof (cases r1)
      case (Some s)
      with Inr p res' have "r = Some s" "mem' = mem1"
        by (simp_all add: swiotlb_find_slots_lockless_def)
      with Some Inr p inv show ?thesis by auto
    next
      case None
      with Inr p do_find_slots_cases [of dev mem ?a orig S am "Inr (None, mem1)"]
      have m1: "mem1 = mem" and a: "?a < nareas mem" by auto
      let ?m0 = "foldl (reclaim_slot ?a) mem (free_slots_from_other_cpu (areas mem ! ?a))"
      have inv0: "pool_inv ?m0" using inv a by (rule pool_inv_reclaim)
      from None Inr p m1 res'
      have second: "swiotlb_do_find_slots dev ?m0 ?a orig S am = Inr (r, mem')"
        by (simp add: swiotlb_find_slots_lockless_def Let_def)
      show ?thesis
      proof (cases r)
        case None
        with second do_find_slots_cases [of dev ?m0 ?a orig S am "Inr (None, mem')"]
        have "mem' = ?m0" by auto
        with None inv0 show ?thesis by (simp add: foldl_reclaim_fields)
      next
        case (Some s)
        with second inv0 show ?thesis
          by (intro disjI2 exI [of _ ?a] exI [of _ s] exI [of _ ?m0])
             (simp add: foldl_reclaim_fields)
      qed
    qed
  qed
qed

lemma pool_inv_find_slots:
  assumes "pool_inv mem"
    and "swiotlb_find_slots lockless cpu dev mem orig S am = Inr (r, mem')"
  shows "pool_inv mem'"
  using find_slots_result [OF assms] pool_inv_do_find_slots by blast

lemma init_areas_upto:
  assumes an: "0 < an" and k: "k \<le> na * an"
  shows "foldl (\<lambda>as i. list_add_tail_free as (i div an) i)
           (replicate na \<lparr>used = 0, free_slots = [], free_slots_from_other_cpu = []\<rparr>) [0..<k]
         = map (\<lambda>a. \<lparr>used = 0, free_slots = filter (\<lambda>i. i div an = a) [0..<k],
                       free_slots_from_other_cpu = []\<rparr>) [0..<na]"
  using k
proof (induction k)
  case 0
  show ?case by (simp add: map_replicate_const)
next
  case (Suc k)
  let ?f = "\<lambda>k a. \<lparr>used = 0, free_slots = filter (\<lambda>i. i div an = a) [0..<k],
                       free_slots_from_other_cpu = []\<rparr>"
  have ka: "k div an < na"
    using Suc.prems an by (simp add: less_mult_imp_div_less)
  have IH: "foldl (\<lambda>as i. list_add_tail_free as (i div an) i)
           (replicate na \<lparr>used = 0, free_slots = [], free_slots_from_other_cpu = []\<rparr>) [0..<k]
         = map (?f k) [0..<na]"
    using Suc by simp
  have "list_add_tail_free (map (?f k) [0..<na]) (k div an) k = map (?f (Suc k)) [0..<na]"
  proof (rule nth_equalityI)
    show "length (list_add_tail_free (map (?f k) [0..<na]) (k div an) k)
            = length (map (?f (Suc k)) [0..<na])"
      by (simp add: list_add_tail_free_def)
  next
    fix a assume "a < length (list_add_tail_free (map (?f k) [0..<na]) (k div an) k)"
    then have a: "a < na" by (simp add: list_add_tail_free_def)
    show "list_add_tail_free (map (?f k) [0..<na]) (k div an) k ! a
            = map (?f (Suc k)) [0..<na] ! a"
      using a ka by (cases "a = k div an") (auto simp: list_add_tail_free_def)
  qed
  then show ?case by (simp add: IH)
qed

lemma init_fields:
  "start (swiotlb_init_io_tlb_mem st n na) = st"
  "nslabs (swiotlb_init_io_tlb_mem st n na) = n"
  "nareas (swiotlb_init_io_tlb_mem st n na) = na"
  "area_nslabs (swiotlb_init_io_tlb_mem st n na) = n div na"
  "slots (swiotlb_init_io_tlb_mem st n na)
     = replicate n \<lparr>orig_addr = INVALID_PHYS_ADDR, alloc_size = 0\<rparr>"
  "bitmap (swiotlb_init_io_tlb_mem st n na) = replicate n True"
  by (simp_all add: swiotlb_init_io_tlb_mem_def)

lemma init_areas:
  assumes "0 < an" and "0 < na"
  shows "areas (swiotlb_init_io_tlb_mem st (na * an) na)
         = map (\<lambda>a. \<lparr>used = 0, free_slots = filter (\<lambda>i. i div an = a) [0..<na * an],
                       free_slots_from_other_cpu = []\<rparr>) [0..<na]"
  using assms init_areas_upto [of an "na * an" na]
  by (simp add: swiotlb_init_io_tlb_mem_def)

lemma pool_inv_init:
  assumes an: "0 < an" and na: "0 < na" and small: "na * an < 2 ^ 31"
    and seg: "na = 1 \<or> 128 dvd an"
  shows "pool_inv (swiotlb_init_io_tlb_mem st (na * an) na)"
proof -
  let ?m = "swiotlb_init_io_tlb_mem st (na * an) na"
  have d: "na * an div na = an" using na by simp
  have wf: "pool_wf ?m"
    using assms by (simp add: pool_wf_def init_fields init_areas d)
  have ar: "area_inv ?m a" if a: "a < na" for a
  proof -
    have A: "areas ?m ! a = \<lparr>used = 0, free_slots = filter (\<lambda>i. i div an = a) [0..<na * an],
                       free_slots_from_other_cpu = []\<rparr>"
      using a by (simp add: init_areas [OF an na])
    have "length (filter (\<lambda>i. i div an = a) [0..<na * an])
            = card (set (filter (\<lambda>i. i div an = a) [0..<na * an]))"
      by (rule distinct_card [symmetric]) simp
    also have "set (filter (\<lambda>i. i div an = a) [0..<na * an])
                 = {i. i < na * an \<and> i div an = a}" by auto
    also have "card \<dots> = an" by (rule card_area [OF a an])
    finally have len: "length (filter (\<lambda>i. i div an = a) [0..<na * an]) = an" .
    show ?thesis
      unfolding area_inv_def A using len
      by (auto simp: init_fields d)
  qed
  show ?thesis
    unfolding pool_inv_def using wf ar by (simp add: init_fields)
qed

lemma foldl_free_fields:
  "start (foldl (free_slot a) mem xs) = start mem"
  "nslabs (foldl (free_slot a) mem xs) = nslabs mem"
  "nareas (foldl (free_slot a) mem xs) = nareas mem"
  "area_nslabs (foldl (free_slot a) mem xs) = area_nslabs mem"
  "length (bitmap (foldl (free_slot a) mem xs)) = length (bitmap mem)"
  "length (slots (foldl (free_slot a) mem xs)) = length (slots mem)"
  "length (areas (foldl (free_slot a) mem xs)) = length (areas mem)"
  by (induction xs arbitrary: mem; simp add: free_slot_def)+

lemma foldl_free_bitmap:
  "j < length (bitmap mem) \<Longrightarrow>
     bitmap (foldl (free_slot a) mem xs) ! j = (bitmap mem ! j \<or> j \<in> set xs)"
proof (induction xs arbitrary: mem)
  case Nil
  then show ?case by simp
next
  case (Cons x xs)
  let ?m = "free_slot a mem x"
  have bm: "bitmap ?m = (bitmap mem)[x := True]" by (simp add: free_slot_def)
  have "bitmap (foldl (free_slot a) ?m xs) ! j = (bitmap ?m ! j \<or> j \<in> set xs)"
    using Cons.prems by (intro Cons.IH) (simp add: bm)
  moreover have "bitmap ?m ! j = (bitmap mem ! j \<or> j = x)"
    unfolding bm using Cons.prems by (cases "x = j") simp_all
  ultimately show ?case by auto
qed

lemma foldl_free_slots:
  "j < length (slots mem) \<Longrightarrow>
     slots (foldl (free_slot a) mem xs) ! j =
       (if j \<in> set xs then \<lparr>orig_addr = INVALID_PHYS_ADDR, alloc_size = 0\<rparr>
        else slots mem ! j)"
proof (induction xs arbitrary: mem)
  case Nil
  then show ?case by simp
next
  case (Cons x xs)
  let ?m = "free_slot a mem x"
  have sl: "slots ?m = (slots mem)[x := \<lparr>orig_addr = INVALID_PHYS_ADDR, alloc_size = 0\<rparr>]"
    by (simp add: free_slot_def)
  have "slots (foldl (free_slot a) ?m xs) ! j =
       (if j \<in> set xs then \<lparr>orig_addr = INVALID_PHYS_ADDR, alloc_size = 0\<rparr>
        else slots ?m ! j)"
    using Cons.prems by (intro Cons.IH) (simp add: sl)
  moreover have "slots ?m ! j =
       (if j = x then \<lparr>orig_addr = INVALID_PHYS_ADDR, alloc_size = 0\<rparr> else slots mem ! j)"
    unfolding sl using Cons.prems by (cases "x = j") simp_all
  ultimately show ?case by auto
qed

lemma foldl_free_areas:
  "a < length (areas mem) \<Longrightarrow>
     areas (foldl (free_slot a) mem xs)
       = (areas mem)[a := (areas mem ! a)\<lparr>free_slots := rev xs @ free_slots (areas mem ! a)\<rparr>]"
proof (induction xs arbitrary: mem)
  case Nil
  then show ?case by simp
next
  case (Cons x xs)
  let ?m = "free_slot a mem x"
  have ar: "areas ?m = (areas mem)[a := (areas mem ! a)\<lparr>free_slots := x # free_slots (areas mem ! a)\<rparr>]"
    by (simp add: free_slot_def)
  have "areas (foldl (free_slot a) ?m xs)
       = (areas ?m)[a := (areas ?m ! a)\<lparr>free_slots := rev xs @ free_slots (areas ?m ! a)\<rparr>]"
    using Cons.prems by (intro Cons.IH) (simp add: ar)
  then show ?case using Cons.prems by (simp add: ar)
qed

lemma foldl_queue_fields:
  "start (foldl (queue_slot a) mem xs) = start mem"
  "nslabs (foldl (queue_slot a) mem xs) = nslabs mem"
  "nareas (foldl (queue_slot a) mem xs) = nareas mem"
  "area_nslabs (foldl (queue_slot a) mem xs) = area_nslabs mem"
  "bitmap (foldl (queue_slot a) mem xs) = bitmap mem"
  "slots (foldl (queue_slot a) mem xs) = slots mem"
  "length (areas (foldl (queue_slot a) mem xs)) = length (areas mem)"
  by (induction xs arbitrary: mem; simp add: queue_slot_def)+

lemma foldl_queue_areas:
  "a < length (areas mem) \<Longrightarrow>
     areas (foldl (queue_slot a) mem xs)
       = (areas mem)[a := (areas mem ! a)\<lparr>free_slots_from_other_cpu :=
            rev xs @ free_slots_from_other_cpu (areas mem ! a)\<rparr>]"
proof (induction xs arbitrary: mem)
  case Nil
  then show ?case by simp
next
  case (Cons x xs)
  let ?m = "queue_slot a mem x"
  have ar: "areas ?m = (areas mem)[a := (areas mem ! a)\<lparr>free_slots_from_other_cpu :=
              x # free_slots_from_other_cpu (areas mem ! a)\<rparr>]"
    by (simp add: queue_slot_def)
  have "areas (foldl (queue_slot a) ?m xs)
       = (areas ?m)[a := (areas ?m ! a)\<lparr>free_slots_from_other_cpu :=
            rev xs @ free_slots_from_other_cpu (areas ?m ! a)\<rparr>]"
    using Cons.prems by (intro Cons.IH) (simp add: ar)
  then show ?case using Cons.prems by (simp add: ar)
qed

lemma release_slots_cases:
  assumes "swiotlb_release_slots lockless cpu dev mem tlb_addr = Inr mem'"
    and "0 \<le> release_nslots dev mem tlb_addr"
  shows "release_index dev mem tlb_addr < length (slots mem)
         \<and> release_index dev mem tlb_addr div area_nslabs mem < nareas mem
         \<and> (if lockless \<and> release_index dev mem tlb_addr div area_nslabs mem
                             \<noteq> unat (cpu AND (of_nat (nareas mem) - 1))
            then mem' = queued mem (release_index dev mem tlb_addr)
                          (nat (release_nslots dev mem tlb_addr))
            else mem' = released mem (release_index dev mem tlb_addr)
                          (nat (release_nslots dev mem tlb_addr)))"
  using assms
  by (auto simp: swiotlb_release_slots_def Let_def released_def queued_def not_le
        split: if_splits)

lemma pool_inv_released:
  assumes inv: "pool_inv mem"
    and idx: "index < nslabs mem"
    and run: "\<And>i. index \<le> i \<Longrightarrow> i < index + n \<Longrightarrow>
                i < nslabs mem \<and> i div area_nslabs mem = index div area_nslabs mem
                \<and> \<not> bitmap mem ! i
                \<and> i \<notin> set (free_slots_from_other_cpu
                             (areas mem ! (index div area_nslabs mem)))"
  shows "pool_inv (released mem index n)"
proof -
  let ?an = "area_nslabs mem"
  let ?a = "index div ?an"
  let ?R = "[index ..< index + n]"
  let ?m1 = "foldl (free_slot ?a) mem (rev ?R)"
  let ?m = "released mem index n"
  from inv have wf: "pool_wf mem"
    and ai: "\<And>b. b < nareas mem \<Longrightarrow> area_inv mem b"
    and oi: "\<And>i. i < nslabs mem \<Longrightarrow> bitmap mem ! i \<Longrightarrow>
               orig_addr (slots mem ! i) = INVALID_PHYS_ADDR"
    by (simp_all add: pool_inv_def)
  from wf have len: "length (slots mem) = nslabs mem" "length (bitmap mem) = nslabs mem"
      "length (areas mem) = nareas mem"
    and geo: "nslabs mem = nareas mem * ?an" "0 < ?an" "nslabs mem < 2 ^ 31"
    by (simp_all add: pool_wf_def)
  have a: "?a < nareas mem"
    using idx geo by (simp add: less_mult_imp_div_less)
  have R_in: "i < nslabs mem" and R_area: "i div ?an = ?a" and R_clear: "\<not> bitmap mem ! i"
    and R_noq: "i \<notin> set (free_slots_from_other_cpu (areas mem ! ?a))"
    if "i \<in> set ?R" for i
    using run [of i] that by simp_all
  have m_def: "?m = ?m1\<lparr>areas := (areas ?m1)[?a := (areas ?m1 ! ?a)
                       \<lparr>used := used (areas ?m1 ! ?a) - of_nat n\<rparr>]\<rparr>"
    by (simp add: released_def Let_def)
  have fields: "nslabs ?m = nslabs mem" "nareas ?m = nareas mem" "area_nslabs ?m = ?an"
    "length (slots ?m) = length (slots mem)" "length (bitmap ?m) = length (bitmap mem)"
    "length (areas ?m) = length (areas mem)"
    by (simp_all add: m_def foldl_free_fields)
  have wf': "pool_wf ?m" using wf by (simp add: pool_wf_def fields)
  have bm': "bitmap ?m ! j = (bitmap mem ! j \<or> j \<in> set ?R)" if "j < nslabs mem" for j
    using that by (simp add: m_def foldl_free_bitmap len)
  have sl': "slots ?m ! j = (if j \<in> set ?R
                then \<lparr>orig_addr = INVALID_PHYS_ADDR, alloc_size = 0\<rparr> else slots mem ! j)"
    if "j < nslabs mem" for j
    using that by (simp add: m_def foldl_free_slots len)
  have ar': "areas ?m ! b =
      (if b = ?a then (areas mem ! b)\<lparr>free_slots := ?R @ free_slots (areas mem ! b),
                                       used := used (areas mem ! b) - of_nat n\<rparr>
       else areas mem ! b)" if "b < nareas mem" for b
    using that a by (simp add: m_def foldl_free_areas len)
  have area': "area_inv ?m b" if b: "b < nareas mem" for b
  proof -
    let ?A = "areas mem ! b"
    from ai [OF b] have d: "distinct (free_slots ?A)"
      and f: "set (free_slots ?A) = {i. i < nslabs mem \<and> i div ?an = b \<and> bitmap mem ! i}"
      and d2: "distinct (free_slots_from_other_cpu ?A)"
      and o: "set (free_slots_from_other_cpu ?A)
                \<subseteq> {i. i < nslabs mem \<and> i div ?an = b \<and> \<not> bitmap mem ! i}"
      and c: "unat (used ?A) + length (free_slots ?A) = ?an"
      by (simp_all add: area_inv_def)
    show ?thesis
    proof (cases "b = ?a")
      case True
      have disj: "set ?R \<inter> set (free_slots ?A) = {}" using f R_clear by blast
      have 1: "distinct (?R @ free_slots ?A)" using d disj by simp
      have 2: "set (?R @ free_slots ?A)
                 = {i. i < nslabs mem \<and> i div ?an = b \<and> bitmap ?m ! i}"
        using f R_in R_area bm' True by (auto simp del: set_upt)
      have 3: "set (free_slots_from_other_cpu ?A)
                \<subseteq> {i. i < nslabs mem \<and> i div ?an = b \<and> \<not> bitmap ?m ! i}"
        using o R_noq bm' True by (auto simp del: set_upt)
      have "card (set ?R \<union> set (free_slots ?A))
              \<le> card {i. i < nareas mem * ?an \<and> i div ?an = ?a}"
        using f R_in R_area True geo(1) by (intro card_mono) (auto simp del: set_upt)
      also have "\<dots> = ?an" by (rule card_area [OF a geo(2)])
      finally have "n + length (free_slots ?A) \<le> ?an"
        using d disj by (simp add: card_Un_disjoint distinct_card)
      with c have le: "n \<le> unat (used ?A)" by simp
      have 4: "unat (used ?A - of_nat n) + length (?R @ free_slots ?A) = ?an"
        using c le by (simp add: unat_sub_of_nat)
      show ?thesis
        unfolding area_inv_def ar' [OF b] fields using True 1 2 3 4 d2
        by simp
    next
      case False
      have nb: "i \<notin> set ?R" if "i div ?an = b" for i using that R_area [of i] False by blast
      have 2: "set (free_slots ?A) = {i. i < nslabs mem \<and> i div ?an = b \<and> bitmap ?m ! i}"
        using f bm' nb by auto
      have 4: "set (free_slots_from_other_cpu ?A)
                \<subseteq> {i. i < nslabs mem \<and> i div ?an = b \<and> \<not> bitmap ?m ! i}"
        using o bm' nb by auto
      show ?thesis
        unfolding area_inv_def ar' [OF b] fields using False d d2 2 4 c
        by simp
    qed
  qed
  have orig': "orig_addr (slots ?m ! i) = INVALID_PHYS_ADDR"
    if "i < nslabs mem" "bitmap ?m ! i" for i
    using that bm' [of i] oi [of i] sl' [of i] by auto
  show ?thesis
    unfolding pool_inv_def using wf' area' orig' by (simp add: fields)
qed



lemma pool_inv_queued:
  assumes inv: "pool_inv mem"
    and idx: "index < nslabs mem"
    and run: "\<And>i. index \<le> i \<Longrightarrow> i < index + n \<Longrightarrow>
                i < nslabs mem \<and> i div area_nslabs mem = index div area_nslabs mem
                \<and> \<not> bitmap mem ! i
                \<and> i \<notin> set (free_slots_from_other_cpu
                             (areas mem ! (index div area_nslabs mem)))"
  shows "pool_inv (queued mem index n)"
proof -
  let ?an = "area_nslabs mem"
  let ?a = "index div ?an"
  let ?R = "[index ..< index + n]"
  let ?m = "queued mem index n"
  from inv have wf: "pool_wf mem"
    and ai: "\<And>b. b < nareas mem \<Longrightarrow> area_inv mem b"
    and oi: "\<And>i. i < nslabs mem \<Longrightarrow> bitmap mem ! i \<Longrightarrow>
               orig_addr (slots mem ! i) = INVALID_PHYS_ADDR"
    by (simp_all add: pool_inv_def)
  from wf have len: "length (areas mem) = nareas mem"
    and geo: "nslabs mem = nareas mem * ?an" "0 < ?an"
    by (simp_all add: pool_wf_def)
  have a: "?a < nareas mem"
    using idx geo by (simp add: less_mult_imp_div_less)
  have R_in: "i < nslabs mem" and R_area: "i div ?an = ?a" and R_clear: "\<not> bitmap mem ! i"
    and R_noq: "i \<notin> set (free_slots_from_other_cpu (areas mem ! ?a))"
    if "i \<in> set ?R" for i
    using run [of i] that by simp_all
  have fields: "nslabs ?m = nslabs mem" "nareas ?m = nareas mem" "area_nslabs ?m = ?an"
    "slots ?m = slots mem" "bitmap ?m = bitmap mem"
    "length (areas ?m) = length (areas mem)"
    by (simp_all add: queued_def foldl_queue_fields)
  have wf': "pool_wf ?m" using wf by (simp add: pool_wf_def fields)
  have ar': "areas ?m ! b =
      (if b = ?a then (areas mem ! b)\<lparr>free_slots_from_other_cpu :=
                         ?R @ free_slots_from_other_cpu (areas mem ! b)\<rparr>
       else areas mem ! b)" if "b < nareas mem" for b
    using that a by (simp add: queued_def foldl_queue_areas len)
  have area': "area_inv ?m b" if b: "b < nareas mem" for b
  proof (cases "b = ?a")
    case True
    let ?A = "areas mem ! b"
    from ai [OF b] have d2: "distinct (free_slots_from_other_cpu ?A)"
      and o: "set (free_slots_from_other_cpu ?A)
                \<subseteq> {i. i < nslabs mem \<and> i div ?an = b \<and> \<not> bitmap mem ! i}"
      and rest: "distinct (free_slots ?A)"
        "set (free_slots ?A) = {i. i < nslabs mem \<and> i div ?an = b \<and> bitmap mem ! i}"
        "unat (used ?A) + length (free_slots ?A) = ?an"
      by (simp_all add: area_inv_def)
    have disj: "set ?R \<inter> set (free_slots_from_other_cpu ?A) = {}"
      using R_noq True by blast
    have 1: "distinct (?R @ free_slots_from_other_cpu ?A)"
      using d2 disj by simp
    have 2: "set (?R @ free_slots_from_other_cpu ?A)
               \<subseteq> {i. i < nslabs mem \<and> i div ?an = b \<and> \<not> bitmap mem ! i}"
      using o R_in R_area R_clear True by (auto simp del: set_upt)
    show ?thesis
      unfolding area_inv_def ar' [OF b] fields using True 1 2 rest by simp
  next
    case False
    with ai [OF b] show ?thesis
      unfolding area_inv_def ar' [OF b] fields by simp
  qed
  show ?thesis
    unfolding pool_inv_def using wf' area' oi by (simp add: fields)
qed

lemma pool_inv_release_slots:
  assumes inv: "pool_inv mem" and ok: "release_ok dev mem tlb_addr"
    and res: "swiotlb_release_slots lockless cpu dev mem tlb_addr = Inr mem'"
  shows "pool_inv mem'"
proof -
  let ?i = "release_index dev mem tlb_addr"
  let ?n = "nat (release_nslots dev mem tlb_addr)"
  let ?a = "?i div area_nslabs mem"
  from ok have all: "?i < nslabs mem \<and> 0 \<le> release_nslots dev mem tlb_addr
         \<and> (\<forall>i \<in> {?i ..< ?i + ?n}.
               i < nslabs mem \<and> i div area_nslabs mem = ?a \<and> \<not> bitmap mem ! i
               \<and> i \<notin> set (free_slots_from_other_cpu (areas mem ! ?a)))"
    unfolding release_ok_def Let_def .
  then have idx: "?i < nslabs mem" and nn: "0 \<le> release_nslots dev mem tlb_addr"
    by blast+
  have run: "i < nslabs mem \<and> i div area_nslabs mem = ?a \<and> \<not> bitmap mem ! i
               \<and> i \<notin> set (free_slots_from_other_cpu (areas mem ! ?a))"
    if "?i \<le> i" "i < ?i + ?n" for i
  proof -
    from that have "i \<in> {?i ..< ?i + ?n}" by simp
    with all show ?thesis by blast
  qed
  note cs = release_slots_cases [OF res nn, THEN conjunct2, THEN conjunct2]
  show ?thesis
  proof (cases "lockless \<and> ?a \<noteq> unat (cpu AND (of_nat (nareas mem) - 1))")
    case True
    with cs have "mem' = queued mem ?i ?n" by (simp only: simp_thms if_True if_False)
    then show ?thesis using pool_inv_queued [OF inv idx run] by (simp only:)
  next
    case False
    with cs have "mem' = released mem ?i ?n" by (simp only: simp_thms if_True if_False)
    then show ?thesis using pool_inv_released [OF inv idx run] by (simp only:)
  qed
qed

lemma do_find_slots_Some:
  assumes inv: "pool_inv mem"
    and res: "swiotlb_do_find_slots dev mem a orig S am = Inr (Some s, mem')"
  shows "mem' = claimed dev mem a orig S s" and "a < nareas mem" and "s < nslabs mem"
    and "s div area_nslabs mem = a" and "search_nslots S \<noteq> 0"
    and "s mod 128 + unat (search_nslots S) \<le> 128"
    and "s + unat (search_nslots S) \<le> nslabs mem"
    and "\<And>i. s \<le> i \<Longrightarrow> i < s + unat (search_nslots S) \<Longrightarrow> bitmap mem ! i"
    and "slot_accepted (bitmap mem) (search_tbl_dma_addr dev mem) (search_align_mask dev)
           (search_max_slots dev) (search_nslots S) orig S am s"
proof -
  from do_find_slots_cases [OF res]
  show m': "mem' = claimed dev mem a orig S s" and a: "a < nareas mem"
    and n0: "search_nslots S \<noteq> 0"
    and acc: "slot_accepted (bitmap mem) (search_tbl_dma_addr dev mem) (search_align_mask dev)
           (search_max_slots dev) (search_nslots S) orig S am s"
    by simp_all
  from do_find_slots_cases [OF res]
  have s: "s \<in> set (free_slots (areas mem ! a))" by simp
  from inv a have ai: "area_inv mem a" and wf: "pool_wf mem" by (simp_all add: pool_inv_def)
  from ai s show s_in: "s < nslabs mem" and "s div area_nslabs mem = a"
    by (auto simp: area_inv_def)
  from wf s_in have s31: "s < 2 ^ 31" by (simp add: pool_wf_def)
  from wf have len: "length (bitmap mem) = nslabs mem" by (simp add: pool_wf_def)
  note run = accepted_run [OF acc s31]
  show "s mod 128 + unat (search_nslots S) \<le> 128" by (rule run(1))
  show bits: "\<And>i. s \<le> i \<Longrightarrow> i < s + unat (search_nslots S) \<Longrightarrow> bitmap mem ! i"
    using run(2) by (simp add: test_bit_def)
  have "0 < unat (search_nslots S)" using n0 by (simp add: unat_gt_0)
  then have "test_bit (bitmap mem) (s + unat (search_nslots S) - 1)"
    by (intro run(2)) simp_all
  then have "s + unat (search_nslots S) - 1 < nslabs mem"
    by (simp add: test_bit_def len)
  then show "s + unat (search_nslots S) \<le> nslabs mem" by simp
qed

lemma foldl_save_orig_fields:
  "start (foldl (save_orig_addr orig index) mem is) = start mem"
  "nslabs (foldl (save_orig_addr orig index) mem is) = nslabs mem"
  "nareas (foldl (save_orig_addr orig index) mem is) = nareas mem"
  "area_nslabs (foldl (save_orig_addr orig index) mem is) = area_nslabs mem"
  "bitmap (foldl (save_orig_addr orig index) mem is) = bitmap mem"
  "areas (foldl (save_orig_addr orig index) mem is) = areas mem"
  "length (slots (foldl (save_orig_addr orig index) mem is)) = length (slots mem)"
  by (induction "is" arbitrary: mem; simp add: save_orig_addr_def)+

lemma foldl_save_orig_slots:
  "j < length (slots mem) \<Longrightarrow>
     slots (foldl (save_orig_addr orig index) mem is) ! j =
       (if index \<le> j \<and> j - index \<in> set is
        then (slots mem ! j)\<lparr>orig_addr := slot_addr orig (ucast (of_nat (j - index) :: u32))\<rparr>
        else slots mem ! j)"
proof (induction "is" arbitrary: mem)
  case Nil
  then show ?case by simp
next
  case (Cons i "is")
  let ?m = "save_orig_addr orig index mem i"
  have sl: "slots ?m = (slots mem)[index + i := (slots mem ! (index + i))
              \<lparr>orig_addr := slot_addr orig (ucast (of_nat i :: u32))\<rparr>]"
    by (simp add: save_orig_addr_def)
  have "slots (foldl (save_orig_addr orig index) ?m is) ! j =
       (if index \<le> j \<and> j - index \<in> set is
        then (slots ?m ! j)\<lparr>orig_addr := slot_addr orig (ucast (of_nat (j - index) :: u32))\<rparr>
        else slots ?m ! j)"
    using Cons.prems by (intro Cons.IH) (simp add: sl)
  moreover have "slots ?m ! j =
       (if index \<le> j \<and> j - index = i
        then (slots mem ! j)\<lparr>orig_addr := slot_addr orig (ucast (of_nat (j - index) :: u32))\<rparr>
        else slots mem ! j)"
    unfolding sl using Cons.prems by (cases "index + i = j") auto
  ultimately show ?case by auto
qed

lemma pool_inv_save_orig:
  assumes inv: "pool_inv mem"
    and clear: "\<And>i. index \<le> i \<Longrightarrow> i < index + n \<Longrightarrow> \<not> bitmap mem ! i"
  shows "pool_inv (foldl (save_orig_addr orig index) mem [0..<n])"
proof -
  let ?m = "foldl (save_orig_addr orig index) mem [0..<n]"
  from inv have wf: "pool_wf mem"
    and ai: "\<And>b. b < nareas mem \<Longrightarrow> area_inv mem b"
    and oi: "\<And>i. i < nslabs mem \<Longrightarrow> bitmap mem ! i \<Longrightarrow>
               orig_addr (slots mem ! i) = INVALID_PHYS_ADDR"
    by (simp_all add: pool_inv_def)
  have wf': "pool_wf ?m" using wf by (simp add: pool_wf_def foldl_save_orig_fields)
  have area': "area_inv ?m b" if "b < nareas mem" for b
    using ai [OF that] by (simp add: area_inv_def foldl_save_orig_fields)
  have orig': "orig_addr (slots ?m ! i) = INVALID_PHYS_ADDR"
    if i: "i < nslabs mem" and b: "bitmap mem ! i" for i
  proof -
    have "\<not> (index \<le> i \<and> i - index \<in> set [0..<n])"
    proof
      assume "index \<le> i \<and> i - index \<in> set [0..<n]"
      then have "index \<le> i" "i < index + n" by auto
      then show False using clear [of i] b by simp
    qed
    moreover have "i < length (slots mem)" using wf i by (simp add: pool_wf_def)
    ultimately have "slots ?m ! i = slots mem ! i"
      by (simp only: foldl_save_orig_slots if_False)
    with oi [OF i b] show ?thesis by simp
  qed
  show ?thesis
    unfolding pool_inv_def using wf' area' orig' by (simp add: foldl_save_orig_fields)
qed

lemma pool_inv_claimed_clear:
  assumes "pool_inv mem"
    and "swiotlb_do_find_slots dev mem a orig S am = Inr (Some s, mem')"
    and "s \<le> i" and "i < s + unat (search_nslots S)"
  shows "\<not> bitmap mem' ! i"
proof -
  note f = do_find_slots_Some [OF assms(1,2)]
  from assms(1) have "length (bitmap mem) = nslabs mem" by (simp add: pool_inv_def pool_wf_def)
  with f(7) assms(3,4) show ?thesis
    by (simp add: f(1) claimed_bitmap)
qed

lemma find_slots_clear:
  assumes inv: "pool_inv mem"
    and res: "swiotlb_find_slots lockless cpu dev mem orig S am = Inr (Some s, mem')"
    and i: "s \<le> i" "i < s + unat (search_nslots S)"
  shows "\<not> bitmap mem' ! i"
proof -
  from find_slots_result [OF inv res] obtain a m0 where
    "pool_inv m0" "swiotlb_do_find_slots dev m0 a orig S am = Inr (Some s, mem')"
    by auto
  then show ?thesis using i by (rule pool_inv_claimed_clear)
qed

lemma search_nslots_unat:
  assumes "unat (nr_slots S) < 2 ^ 32"
  shows "unat (search_nslots S) = unat (nr_slots S)"
  using assms by (simp add: search_nslots_def unsigned_ucast_eq take_bit_nat_eq_self_iff)

lemma map_single_reject:
  assumes "nslabs mem = 0 \<or> asz < msz"
  shows "swiotlb_tbl_map_single lockless cpu dev (Some mem) mach orig msz asz am dir attrs
           = Inr (DMA_MAPPING_ERROR, Some mem,
                  warn (if nslabs mem = 0 then No_bounce_buffer else Invalid_sizes) mach)"
proof (cases "nslabs mem = 0")
  case True
  then show ?thesis by (simp add: swiotlb_tbl_map_single_def Let_def)
next
  case False
  with assms have "asz < msz" by simp
  with False show ?thesis by (simp add: swiotlb_tbl_map_single_def Let_def)
qed

lemma map_single_cases:
  assumes "swiotlb_tbl_map_single lockless cpu dev (Some mem) mach orig msz asz am dir attrs
             = Inr (addr, pool', mach')"
  shows "(addr = DMA_MAPPING_ERROR \<and> pool' = Some mem \<and> (nslabs mem = 0 \<or> asz < msz))
       \<or> (\<exists>mem1. swiotlb_find_slots lockless cpu dev mem orig
                    (asz + ucast (swiotlb_align_offset dev orig)) am = Inr (None, mem1)
                \<and> addr = DMA_MAPPING_ERROR \<and> pool' = Some mem1)
       \<or> (\<exists>index mem1. nslabs mem \<noteq> 0 \<and> msz \<le> asz
             \<and> swiotlb_find_slots lockless cpu dev mem orig
                    (asz + ucast (swiotlb_align_offset dev orig)) am = Inr (Some index, mem1)
             \<and> index + unat (nr_slots (asz + ucast (swiotlb_align_offset dev orig)))
                  \<le> length (slots mem1)
             \<and> pool' = Some (foldl (save_orig_addr orig index) mem1
                    [0..<unat (nr_slots (asz + ucast (swiotlb_align_offset dev orig)))])
             \<and> addr = slot_addr (start mem1) (of_nat index)
                        + ucast (swiotlb_align_offset dev orig)
             \<and> swiotlb_bounce dev (foldl (save_orig_addr orig index) mem1
                    [0..<unat (nr_slots (asz + ucast (swiotlb_align_offset dev orig)))])
                  mach addr msz DMA_TO_DEVICE = Inr mach')"
proof -
  let ?S = "asz + ucast (swiotlb_align_offset dev orig)"
  show ?thesis
  proof (cases "nslabs mem = 0 \<or> asz < msz")
    case True
    from map_single_reject [OF True, of lockless cpu dev mach orig am dir attrs] assms
    have "addr = DMA_MAPPING_ERROR" "pool' = Some mem" by simp_all
    with True show ?thesis by simp
  next
    case False
    then have nz: "(nslabs mem = 0) = False" and le: "(asz < msz) = False" by simp_all
    from False have le': "msz \<le> asz" by (simp add: not_less)
    show ?thesis
    proof (cases "swiotlb_find_slots lockless cpu dev mem orig ?S am")
      case (Inl f)
      with assms show ?thesis
        by (simp add: swiotlb_tbl_map_single_def Let_def nz le)
    next
      case (Inr p)
      obtain r mem1 where p: "p = (r, mem1)" by (cases p)
      show ?thesis
      proof (cases r)
        case None
        with assms Inr p show ?thesis
          by (simp add: swiotlb_tbl_map_single_def Let_def nz le)
      next
        case (Some index)
        with assms Inr p le' show ?thesis
          by (simp add: swiotlb_tbl_map_single_def Let_def nz le foldl_save_orig_fields
                split: if_splits sum.splits)
      qed
    qed
  qed
qed

lemma pool_inv_map_single:
  assumes inv: "pool_inv mem"
    and res: "swiotlb_tbl_map_single lockless cpu dev (Some mem) mach orig msz asz am dir attrs
             = Inr (addr, pool', mach')"
  shows "\<exists>mem'. pool' = Some mem' \<and> pool_inv mem'"
proof -
  let ?S = "asz + ucast (swiotlb_align_offset dev orig)"
  from map_single_cases [OF res] consider
      (reject) "pool' = Some mem"
    | (full) mem1 where "swiotlb_find_slots lockless cpu dev mem orig ?S am = Inr (None, mem1)"
        "pool' = Some mem1"
    | (ok) index mem1 where
        "swiotlb_find_slots lockless cpu dev mem orig ?S am = Inr (Some index, mem1)"
        "index + unat (nr_slots ?S) \<le> length (slots mem1)"
        "pool' = Some (foldl (save_orig_addr orig index) mem1 [0..<unat (nr_slots ?S)])"
    by blast
  then show ?thesis
  proof cases
    case reject
    with inv show ?thesis by simp
  next
    case full
    with pool_inv_find_slots [OF inv full(1)] show ?thesis by simp
  next
    case ok
    have inv1: "pool_inv mem1" using inv ok(1) by (rule pool_inv_find_slots)
    then have "length (slots mem1) < 2 ^ 31" by (simp add: pool_inv_def pool_wf_def)
    with ok(2) have "unat (nr_slots ?S) < 2 ^ 32" by simp
    then have n: "unat (search_nslots ?S) = unat (nr_slots ?S)" by (rule search_nslots_unat)
    have "pool_inv (foldl (save_orig_addr orig index) mem1 [0..<unat (nr_slots ?S)])"
      using inv1 find_slots_clear [OF inv ok(1)] by (intro pool_inv_save_orig) (simp_all add: n)
    with ok(3) show ?thesis by simp
  qed
qed

lemma pool_inv_alloc:
  assumes inv: "pool_inv mem"
    and res: "swiotlb_alloc lockless cpu dev (Some mem) sz = Inr (page, pool')"
  shows "\<exists>mem'. pool' = Some mem' \<and> pool_inv mem'"
proof (cases "swiotlb_find_slots lockless cpu dev mem 0 sz 0")
  case (Inl f)
  with res show ?thesis by (simp add: swiotlb_alloc_def)
next
  case (Inr p)
  obtain r mem1 where p: "p = (r, mem1)" by (cases p)
  with Inr have fs: "swiotlb_find_slots lockless cpu dev mem 0 sz 0 = Inr (r, mem1)" by simp
  from res fs have "pool' = Some mem1"
    by (cases r) (simp_all add: swiotlb_alloc_def)
  with pool_inv_find_slots [OF inv fs] show ?thesis by simp
qed

lemma unmap_single_release:
  assumes "swiotlb_tbl_unmap_single lockless cpu dev mem mach tlb_addr msz dir attrs
             = Inr (mem', mach')"
  shows "swiotlb_release_slots lockless cpu dev mem tlb_addr = Inr mem'"
  using assms
  by (auto simp: swiotlb_tbl_unmap_single_def split: sum.splits if_splits)

lemma reachable_pool_inv: "reachable lockless mem \<Longrightarrow> pool_inv mem"
proof (induction rule: reachable.induct)
  case (init an na st)
  then show ?case by (intro pool_inv_init)
next
  case (map_single mem cpu dev mach orig mapping_size alloc_sz alloc_align_mask dir attrs
      tlb_addr mem' mach')
  from pool_inv_map_single [OF map_single.IH map_single.hyps(2)] show ?case by simp
next
  case (alloc mem cpu dev sz page mem')
  from pool_inv_alloc [OF alloc.IH alloc.hyps(2)] show ?case by simp
next
  case (unmap_single mem dev tlb_addr cpu mach mapping_size dir attrs mem' mach')
  from unmap_single.hyps(3) have "swiotlb_release_slots lockless cpu dev mem tlb_addr = Inr mem'"
    by (rule unmap_single_release)
  with unmap_single.IH unmap_single.hyps(2) show ?case by (rule pool_inv_release_slots)
next
  case (release mem dev tlb_addr cpu mem')
  from release.IH release.hyps(2,3) show ?case by (rule pool_inv_release_slots)
qed


lemma find_slots_Some:
  assumes inv: "pool_inv mem"
    and res: "swiotlb_find_slots lockless cpu dev mem orig S am = Inr (Some s, mem')"
  shows "s mod 128 + unat (search_nslots S) \<le> 128"
    and "s + unat (search_nslots S) \<le> nslabs mem'"
    and "length (slots mem') = nslabs mem'"
    and "start mem' = start mem"
    and "\<And>k. k < unat (search_nslots S) \<Longrightarrow>
           slots mem' ! (s + k) = (slots mem' ! (s + k))\<lparr>alloc_size :=
             S - ucast (swiotlb_align_offset dev orig
                        + push_bit IO_TLB_SHIFT ((of_nat (s + k) :: u32) - of_nat s))\<rparr>"
    and "search_nslots S \<noteq> 0"
proof -
  from find_slots_result [OF inv res] obtain a m0 where
    inv0: "pool_inv m0" and st: "start m0 = start mem"
    and df: "swiotlb_do_find_slots dev m0 a orig S am = Inr (Some s, mem')"
    by auto
  note f = do_find_slots_Some [OF inv0 df]
  from inv0 have len: "length (slots m0) = nslabs m0" by (simp add: pool_inv_def pool_wf_def)
  show "s mod 128 + unat (search_nslots S) \<le> 128" by (rule f(6))
  show "s + unat (search_nslots S) \<le> nslabs mem'" using f(7) by (simp add: f(1) claimed_fields)
  show "length (slots mem') = nslabs mem'" using len by (simp add: f(1) claimed_fields)
  show "start mem' = start mem" using st by (simp add: f(1) claimed_fields)
  show "search_nslots S \<noteq> 0" by (rule f(5))
  fix k assume k: "k < unat (search_nslots S)"
  with f(7) len have "s + k < length (slots m0)" by simp
  then show "slots mem' ! (s + k) = (slots mem' ! (s + k))\<lparr>alloc_size :=
             S - ucast (swiotlb_align_offset dev orig
                        + push_bit IO_TLB_SHIFT ((of_nat (s + k) :: u32) - of_nat s))\<rparr>"
    using k by (simp add: f(1) claimed_slots)
qed


lemma ex_pool_reachable: "reachable lockless ex_pool"
  unfolding ex_pool_def by (rule reachable.init) simp_all




lemma push_bit_of_nat_word: "push_bit n (of_nat k :: 'a::len word) = of_nat (k * 2 ^ n)"
  by (simp add: push_bit_eq_mult)


lemma map_result_Some:
  "map_result r = Some (addr, pool) \<Longrightarrow> \<exists>mach. r = Inr (addr, pool, mach)"
  by (auto simp: map_result_def split: sum.splits)


lemma filter_area_upt:
  assumes "a < na" and "0 < (an::nat)"
  shows "filter (\<lambda>i. i div an = a) [0..<na * an] = [a * an..<a * an + an]"
proof (rule sorted_distinct_set_unique)
  have "(a + 1) * an \<le> na * an" using assms by (intro mult_le_mono1) simp
  then have up: "a * an + an \<le> na * an" by simp
  then show "set (filter (\<lambda>i. i div an = a) [0..<na * an]) = set [a * an..<a * an + an]"
    by (auto simp: div_eq_iff_range [OF assms(2)])
qed (simp_all add: sorted_wrt_filter)


lemma ex_pool2_code:
  "ex_pool2 = \<lparr>start = 0x1000000, nslabs = 256, nareas = 2, area_nslabs = 128,
      areas = [\<lparr>used = 0, free_slots = [0..<128], free_slots_from_other_cpu = []\<rparr>,
               \<lparr>used = 0, free_slots = [128..<256], free_slots_from_other_cpu = []\<rparr>],
      slots = replicate 256 \<lparr>orig_addr = INVALID_PHYS_ADDR, alloc_size = 0\<rparr>,
      bitmap = replicate 256 True\<rparr>"
proof -
  have u: "[0..<2] = [0, Suc 0]" by (simp add: upt_rec)
  have a0: "areas (swiotlb_init_io_tlb_mem 0x1000000 (2 * 128) 2)
      = map (\<lambda>a. \<lparr>used = 0, free_slots = filter (\<lambda>i. i div 128 = a) [0..<2 * 128],
                       free_slots_from_other_cpu = []\<rparr>) [0..<2]"
    by (rule init_areas) simp_all
  have f0: "filter (\<lambda>i. i div 128 = 0) [0..<2 * 128] = [0..<128]"
    using filter_area_upt [of 0 2 128] by (simp del: upt_rec_numeral)
  have f1: "filter (\<lambda>i. i div 128 = Suc 0) [0..<2 * 128] = [128..<256]"
    using filter_area_upt [of 1 2 128] by (simp del: upt_rec_numeral)
  have "areas ex_pool2 = [\<lparr>used = 0, free_slots = [0..<128], free_slots_from_other_cpu = []\<rparr>,
               \<lparr>used = 0, free_slots = [128..<256], free_slots_from_other_cpu = []\<rparr>]"
    unfolding ex_pool2_def a0 u by (simp only: list.map f0 f1)
  moreover have "start ex_pool2 = 0x1000000" "nslabs ex_pool2 = 256" "nareas ex_pool2 = 2"
    "area_nslabs ex_pool2 = 128"
    "slots ex_pool2 = replicate 256 \<lparr>orig_addr = INVALID_PHYS_ADDR, alloc_size = 0\<rparr>"
    "bitmap ex_pool2 = replicate 256 True"
    by (simp_all add: ex_pool2_def init_fields)
  ultimately show ?thesis by (intro io_tlb_mem.equality) simp_all
qed

declare ex_pool2_code [code]






lemma ex_mapped_map:
  "map_result (swiotlb_tbl_map_single False 0 ex_dev (Some ex_pool) ex_mach 0x5000 3000 3000 0
                 DMA_TO_DEVICE 0) = Some (0x1000000, Some ex_mapped)"
  by code_simp

lemma ex_mapped_reachable: "reachable False ex_mapped"
proof -
  from map_result_Some [OF ex_mapped_map] obtain mach1 where
    "swiotlb_tbl_map_single False 0 ex_dev (Some ex_pool) ex_mach 0x5000 3000 3000 0
       DMA_TO_DEVICE 0 = Inr (0x1000000, Some ex_mapped, mach1)" by blast
  with ex_pool_reachable show ?thesis by (rule reachable.map_single)
qed






lemma memcpy_zero: "memcpy dst d src s 0 = dst"
  by (simp add: memcpy_def)

lemma sub_less_sub_iff:
  assumes "(n::u64) \<le> sz"
  shows "x - n < sz - n \<longleftrightarrow> n \<le> x \<and> x < sz"
  using assms by unat_arith

lemma memcpy_split:
  assumes "(n::u64) \<le> sz"
  shows "memcpy (memcpy dst d src s n) (d + n) src (s + n) (sz - n) = memcpy dst d src s sz"
proof (rule ext)
  fix a
  let ?x = "a - d"
  have 1: "a - (d + n) = ?x - n" by simp
  have 2: "s + n + (?x - n) = s + ?x" by simp
  have 3: "?x < sz" if "?x < n" using that assms by simp
  show "memcpy (memcpy dst d src s n) (d + n) src (s + n) (sz - n) a = memcpy dst d src s sz a"
    unfolding memcpy_def 1 2 sub_less_sub_iff [OF assms]
    using 3 by (auto simp: not_less)
qed

lemma memcpy_at: "k < n \<Longrightarrow> memcpy dst d src s n (d + k) = src (s + k)"
  by (simp add: memcpy_def)

lemma push_bit_page_Suc: "push_bit PAGE_SHIFT (pfn + 1 :: u64) = push_bit PAGE_SHIFT pfn + PAGE_SIZE"
  by (simp add: PAGE_SHIFT_def PAGE_SIZE_def push_bit_eq_mult algebra_simps)

lemma bounce_highmem_flat:
  "bounce_highmem dir mach sz pfn va offset =
     (if dir = DMA_TO_DEVICE
      then mach\<lparr>staging := memcpy (staging mach) va (ram mach)
                               (push_bit PAGE_SHIFT pfn + ucast offset) sz\<rparr>
      else mach\<lparr>ram := memcpy (ram mach) (push_bit PAGE_SHIFT pfn + ucast offset)
                           (staging mach) va sz\<rparr>)"
proof (induction dir mach sz pfn va offset rule: bounce_highmem.induct)
  case (1 dir mach sz pfn va offset)
  show ?case
  proof (cases "sz = 0")
    case True
    then show ?thesis by (simp add: memcpy_zero)
  next
    case False
    let ?n = "min (PAGE_SIZE - ucast offset) sz"
    let ?page = "push_bit PAGE_SHIFT pfn + ucast offset :: u64"
    let ?m1 = "if dir = DMA_TO_DEVICE
              then mach\<lparr>staging := memcpy (staging mach) va (ram mach) ?page ?n\<rparr>
              else mach\<lparr>ram := memcpy (ram mach) ?page (staging mach) va ?n\<rparr>"
    have le: "?n \<le> sz" by simp
    have step: "bounce_highmem dir mach sz pfn va offset
                  = bounce_highmem dir ?m1 (sz - ?n) (pfn + 1) (va + ?n) 0"
      using False by (subst bounce_highmem.simps) (simp add: Let_def)
    have IH: "bounce_highmem dir ?m1 (sz - ?n) (pfn + 1) (va + ?n) 0 =
        (if dir = DMA_TO_DEVICE
         then ?m1\<lparr>staging := memcpy (staging ?m1) (va + ?n) (ram ?m1)
                                  (push_bit PAGE_SHIFT (pfn + 1) + ucast (0 :: 12 word)) (sz - ?n)\<rparr>
         else ?m1\<lparr>ram := memcpy (ram ?m1) (push_bit PAGE_SHIFT (pfn + 1) + ucast (0 :: 12 word))
                              (staging ?m1) (va + ?n) (sz - ?n)\<rparr>)"
      using False by (intro "1.IH") simp_all
    have next_page: "sz - ?n \<noteq> 0 \<Longrightarrow>
        push_bit PAGE_SHIFT (pfn + 1) + ucast (0 :: 12 word) = ?page + ?n"
    proof -
      assume "sz - ?n \<noteq> 0"
      then have "?n = PAGE_SIZE - ucast offset" by (auto simp: min_def)
      then show ?thesis by (simp add: push_bit_page_Suc)
    qed
    show ?thesis
    proof (cases "sz - ?n = 0")
      case True
      then have "?n = sz" by simp
      with step IH True show ?thesis by (simp add: memcpy_zero)
    next
      case False
      note np = next_page [OF False]
      show ?thesis
        unfolding step IH np
        by (simp add: memcpy_split [OF le])
    qed
  qed
qed

lemma page_decompose:
  "push_bit PAGE_SHIFT (drop_bit PAGE_SHIFT orig)
     + ucast (ucast (orig AND (PAGE_SIZE - 1)) :: 12 word) = (orig :: u64)"
proof -
  have m: "PAGE_SIZE - 1 = (mask 12 :: u64)" by (simp add: PAGE_SIZE_def mask_eq_exp_minus_1)
  have "(ucast (ucast (orig AND mask 12) :: 12 word) :: u64) = take_bit 12 orig"
    by (rule bit_word_eqI) (auto simp: bit_simps)
  then show ?thesis
    by (simp add: m PAGE_SHIFT_def bits_ident)
qed


lemma bounce_out_of_bounds:
  "length (slots mem) \<le> bounce_index mem tlb_addr \<Longrightarrow>
     swiotlb_bounce dev mem mach tlb_addr sz dir = Inl OUT_OF_BOUNDS"
  by (simp add: swiotlb_bounce_def bounce_index_def)






lemma bounce_unfold:
  "swiotlb_bounce dev mem mach tlb_addr sz dir =
     (if length (slots mem) \<le> bounce_index mem tlb_addr then Inl OUT_OF_BOUNDS
      else if orig_addr (slots mem ! bounce_index mem tlb_addr) = INVALID_PHYS_ADDR then Inr mach
      else if ucast (tlb_addr AND (IO_TLB_SIZE - 1))
                < swiotlb_align_offset dev (orig_addr (slots mem ! bounce_index mem tlb_addr))
      then Inr (warn Access_before_mapping_start mach)
      else if alloc_size (slots mem ! bounce_index mem tlb_addr)
                < ucast (bounce_offset dev mem tlb_addr)
      then Inr (warn Buffer_overflow mach)
      else if PageHighMem (if bounce_valid dev mem tlb_addr < sz
                           then warn Buffer_overflow mach else mach)
                (drop_bit PAGE_SHIFT (orig_addr (slots mem ! bounce_index mem tlb_addr)))
      then Inr (bounce_highmem dir
                  (if bounce_valid dev mem tlb_addr < sz then warn Buffer_overflow mach else mach)
                  (if bounce_valid dev mem tlb_addr < sz then bounce_valid dev mem tlb_addr else sz)
                  (drop_bit PAGE_SHIFT (orig_addr (slots mem ! bounce_index mem tlb_addr)))
                  (tlb_addr - start mem)
                  (ucast ((orig_addr (slots mem ! bounce_index mem tlb_addr)
                            + ucast (bounce_offset dev mem tlb_addr)) AND (PAGE_SIZE - 1))))
      else if dir = DMA_TO_DEVICE
      then Inr ((if bounce_valid dev mem tlb_addr < sz then warn Buffer_overflow mach else mach)
                \<lparr>staging := memcpy
                   (staging (if bounce_valid dev mem tlb_addr < sz
                             then warn Buffer_overflow mach else mach))
                   (tlb_addr - start mem)
                   (ram (if bounce_valid dev mem tlb_addr < sz
                         then warn Buffer_overflow mach else mach))
                   (orig_addr (slots mem ! bounce_index mem tlb_addr)
                      + ucast (bounce_offset dev mem tlb_addr))
                   (if bounce_valid dev mem tlb_addr < sz
                    then bounce_valid dev mem tlb_addr else sz)\<rparr>)
      else Inr ((if bounce_valid dev mem tlb_addr < sz then warn Buffer_overflow mach else mach)
                \<lparr>ram := memcpy
                   (ram (if bounce_valid dev mem tlb_addr < sz
                         then warn Buffer_overflow mach else mach))
                   (orig_addr (slots mem ! bounce_index mem tlb_addr)
                      + ucast (bounce_offset dev mem tlb_addr))
                   (staging (if bounce_valid dev mem tlb_addr < sz
                             then warn Buffer_overflow mach else mach))
                   (tlb_addr - start mem)
                   (if bounce_valid dev mem tlb_addr < sz
                    then bounce_valid dev mem tlb_addr else sz)\<rparr>))"
  unfolding swiotlb_bounce_def bounce_index_def bounce_offset_def bounce_valid_def Let_def
  by (rule refl)

lemma warn_fields:
  "PageHighMem (warn w mach) = PageHighMem mach"
  "staging (warn w mach) = staging mach"
  "ram (warn w mach) = ram mach"
  "dmesg (warn w mach) = dmesg mach @ [w]"
  by (simp_all add: warn_def)

lemma bounce_copies:
  assumes "bounce_index mem tlb_addr < length (slots mem)"
    and "orig_addr (slots mem ! bounce_index mem tlb_addr) \<noteq> INVALID_PHYS_ADDR"
    and "\<not> ucast (tlb_addr AND (IO_TLB_SIZE - 1))
           < swiotlb_align_offset dev (orig_addr (slots mem ! bounce_index mem tlb_addr))"
    and "\<not> alloc_size (slots mem ! bounce_index mem tlb_addr)
           < ucast (bounce_offset dev mem tlb_addr)"
  shows "swiotlb_bounce dev mem mach tlb_addr sz dir =
     (let orig = orig_addr (slots mem ! bounce_index mem tlb_addr)
                   + ucast (bounce_offset dev mem tlb_addr);
          mach1 = (if bounce_valid dev mem tlb_addr < sz then warn Buffer_overflow mach else mach);
          n = (if bounce_valid dev mem tlb_addr < sz then bounce_valid dev mem tlb_addr else sz);
          src = (if PageHighMem mach
                      (drop_bit PAGE_SHIFT (orig_addr (slots mem ! bounce_index mem tlb_addr)))
                 then push_bit PAGE_SHIFT
                        (drop_bit PAGE_SHIFT (orig_addr (slots mem ! bounce_index mem tlb_addr)))
                      + ucast (ucast (orig AND (PAGE_SIZE - 1)) :: 12 word)
                 else orig)
      in Inr (if dir = DMA_TO_DEVICE
              then mach1\<lparr>staging := memcpy (staging mach1) (tlb_addr - start mem)
                                        (ram mach1) src n\<rparr>
              else mach1\<lparr>ram := memcpy (ram mach1) src (staging mach1)
                                    (tlb_addr - start mem) n\<rparr>))"
proof -
  from assms(1) have i: "\<not> length (slots mem) \<le> bounce_index mem tlb_addr" by simp
  show ?thesis
  proof (cases "bounce_valid dev mem tlb_addr < sz")
    case over: True
    show ?thesis
    proof (cases "PageHighMem mach
                    (drop_bit PAGE_SHIFT (orig_addr (slots mem ! bounce_index mem tlb_addr)))")
      case True
      show ?thesis
        by (simp only: bounce_unfold i assms(2-4) over True if_True if_False warn_fields Let_def
              bounce_highmem_flat)
    next
      case False
      show ?thesis
        by (simp only: bounce_unfold i assms(2-4) over False if_True if_False warn_fields Let_def
              if_distrib [of Inr] )
    qed
  next
    case fits: False
    show ?thesis
    proof (cases "PageHighMem mach
                    (drop_bit PAGE_SHIFT (orig_addr (slots mem ! bounce_index mem tlb_addr)))")
      case True
      show ?thesis
        by (simp only: bounce_unfold i assms(2-4) fits True if_True if_False warn_fields Let_def
              bounce_highmem_flat)
    next
      case False
      show ?thesis
        by (simp only: bounce_unfold i assms(2-4) fits False if_True if_False warn_fields Let_def
             if_distrib [of Inr])
    qed
  qed
qed

lemma take_bit_word_add:
  fixes a b :: "'a::len word"
  shows "take_bit n (take_bit n a + take_bit n b) = take_bit n (a + b)"
proof (cases "n < LENGTH('a)")
  case False
  then show ?thesis by (simp add: take_bit_word_eq_self)
next
  case True
  then have dvd: "(2::nat) ^ n dvd 2 ^ LENGTH('a)" by (simp add: le_imp_power_dvd)
  have l: "unat (take_bit n (take_bit n a + take_bit n b))
             = (unat a mod 2 ^ n + unat b mod 2 ^ n) mod 2 ^ n"
    by (simp only: take_bit_eq_mask unat_and_mask unat_word_ariths(1)
          mod_mod_cancel [OF dvd])
  have r: "unat (take_bit n (a + b)) = (unat a + unat b) mod 2 ^ n"
    by (simp only: take_bit_eq_mask unat_and_mask unat_word_ariths(1)
          mod_mod_cancel [OF dvd])
  show ?thesis
    by (simp only: word_eq_iff_unsigned [where 'a = nat] l r mod_add_eq)
qed

lemma take_bit_sum_aligned:
  fixes A y :: "'a::len word"
  assumes "take_bit n A = 0"
  shows "take_bit n (A + y) = take_bit n y"
proof -
  have "take_bit n (A + y) = take_bit n (take_bit n A + take_bit n y)"
    by (simp only: take_bit_word_add)
  with assms show ?thesis by simp
qed

lemma aligned_plus_units:
  fixes st x :: u64
  assumes "take_bit n st = 0"
  shows "take_bit n (st + push_bit n x) = 0"
proof -
  have "take_bit n (st + push_bit n x) = take_bit n (push_bit n x)"
    using assms by (rule take_bit_sum_aligned)
  then show ?thesis by (simp add: take_bit_push_bit)
qed

lemma aligned_and_small_disjoint:
  fixes A y :: "'a::len word"
  assumes A: "take_bit n A = 0" and y: "take_bit n y = y"
  shows "A AND y = 0"
proof (rule bit_word_eqI)
  fix i assume "i < LENGTH('a)"
  have "\<not> bit A i" if "i < n"
  proof -
    have "bit (take_bit n A) i = bit A i" using that by (simp add: bit_take_bit_iff)
    with A show ?thesis by simp
  qed
  moreover have "\<not> bit y i" if "\<not> i < n"
  proof -
    have "bit (take_bit n y) i = False" using that by (simp add: bit_take_bit_iff)
    with y show ?thesis by simp
  qed
  ultimately show "bit (A AND y) i \<longleftrightarrow> bit (0 :: 'a word) i"
    by (auto simp: bit_and_iff)
qed

lemma drop_bit_sum_aligned:
  fixes x y :: u64
  assumes "take_bit n y = y"
  shows "drop_bit n (push_bit n x + y) = drop_bit n (push_bit n x)"
proof -
  have d: "push_bit n x AND y = 0"
    by (rule aligned_and_small_disjoint [where n = n]) (simp_all add: take_bit_push_bit assms)
  have "push_bit n x + y = push_bit n x OR y" using d by (rule disjunctive_add_eq_or)
  moreover have "drop_bit n y = 0"
    using assms by (simp add: take_bit_eq_self_iff_drop_bit_eq_0)
  ultimately show ?thesis by (simp add: drop_bit_or)
qed





lemma ucast_align_offset:
  "(ucast (swiotlb_align_offset dev addr) :: u64)
     = addr AND (ucast (dma_get_min_align_mask dev) AND mask 11)"
  unfolding swiotlb_align_offset_def IO_TLB_SIZE_def
  by (rule bit_word_eqI) (auto simp: bit_simps mask11 dest: bit_imp_le_length)


lemma unat_push_bit_slot:
  assumes "i < 2 ^ 31"
  shows "unat (push_bit 11 (of_nat i :: u64)) = i * 2048"
proof -
  have "push_bit 11 (of_nat i :: u64) = of_nat (i * 2048)" by (simp add: push_bit_eq_mult)
  moreover have "unat (of_nat (i * 2048) :: u64) = i * 2048"
    using assms by (simp only: unat_of_nat) simp
  ultimately show ?thesis by simp
qed

lemma drop_bit_slot:
  assumes i: "i < 2 ^ 31" and y: "take_bit 11 (y::u64) = y"
  shows "drop_bit 11 (push_bit 11 (of_nat i) + y) = (of_nat i :: u64)"
proof -
  have "drop_bit 11 (push_bit 11 (of_nat i) + y) = drop_bit 11 (push_bit 11 (of_nat i :: u64))"
    using y by (rule drop_bit_sum_aligned)
  moreover have "unat (drop_bit 11 (push_bit 11 (of_nat i :: u64))) = i"
    by (simp only: drop_bit_eq_div unat_div unat_push_bit_slot [OF i]) simp
  moreover have "unat (of_nat i :: u64) = i" using i by (simp only: unat_of_nat) simp
  ultimately show ?thesis by (simp add: word_eq_iff_unsigned [where 'a = nat])
qed

lemma take_bit_align_offset:
  "take_bit 11 (ucast (swiotlb_align_offset dev addr) :: u64) = ucast (swiotlb_align_offset dev addr)"
  unfolding ucast_align_offset
  by (rule bit_word_eqI) (auto simp: bit_simps)

lemma aligned_start: "st AND (IO_TLB_SIZE - 1) = 0 \<Longrightarrow> take_bit 11 st = 0"
  by (simp add: IO_TLB_SIZE_def mask11 take_bit_eq_mask)

text \<open>What a successful \<^verbatim>\<open>swiotlb_tbl_map_single\<close> has done.\<close>

lemma map_single_success:
  assumes inv: "pool_inv mem"
    and res: "swiotlb_tbl_map_single lockless cpu dev (Some mem) mach orig msz asz am dir attrs
                = Inr (addr, pool', mach')"
    and ok: "addr \<noteq> DMA_MAPPING_ERROR"
  obtains index mem1 mem2 where
    "swiotlb_find_slots lockless cpu dev mem orig
        (asz + ucast (swiotlb_align_offset dev orig)) am = Inr (Some index, mem1)"
    and "msz \<le> asz"
    and "mem2 = foldl (save_orig_addr orig index) mem1
                  [0..<unat (search_nslots (asz + ucast (swiotlb_align_offset dev orig)))]"
    and "pool' = Some mem2"
    and "addr = start mem + push_bit 11 (of_nat index) + ucast (swiotlb_align_offset dev orig)"
    and "swiotlb_bounce dev mem2 mach addr msz DMA_TO_DEVICE = Inr mach'"
    and "index < 2 ^ 31"
    and "index < length (slots mem2)"
    and "start mem2 = start mem"
    and "orig_addr (slots mem2 ! index) = orig"
    and "alloc_size (slots mem2 ! index) = asz"
proof -
  let ?off = "swiotlb_align_offset dev orig"
  let ?S = "asz + ucast ?off"
  from map_single_cases [OF res] ok obtain index mem1 where
    le: "msz \<le> asz"
    and fs: "swiotlb_find_slots lockless cpu dev mem orig ?S am = Inr (Some index, mem1)"
    and bound: "index + unat (nr_slots ?S) \<le> length (slots mem1)"
    and pool': "pool' = Some (foldl (save_orig_addr orig index) mem1 [0..<unat (nr_slots ?S)])"
    and addr: "addr = slot_addr (start mem1) (of_nat index) + ucast ?off"
    and bn: "swiotlb_bounce dev (foldl (save_orig_addr orig index) mem1 [0..<unat (nr_slots ?S)])
               mach addr msz DMA_TO_DEVICE = Inr mach'"
    by blast
  let ?n = "unat (search_nslots ?S)"
  let ?m2 = "foldl (save_orig_addr orig index) mem1 [0..<?n]"
  note f = find_slots_Some [OF inv fs]
  have inv1: "pool_inv mem1" using inv fs by (rule pool_inv_find_slots)
  then have small: "length (slots mem1) < 2 ^ 31" by (simp add: pool_inv_def pool_wf_def)
  with bound have "unat (nr_slots ?S) < 2 ^ 32" by simp
  then have n: "unat (nr_slots ?S) = ?n" by (simp add: search_nslots_unat)
  have n0: "0 < ?n" using f(6) by (simp add: unat_gt_0)
  from bound n n0 small have i31: "index < 2 ^ 31" and il: "index < length (slots mem1)"
    by simp_all
  have o: "orig_addr (slots ?m2 ! index) = orig"
    using il n0 by (simp add: foldl_save_orig_slots slot_addr_def)
  have "slots mem1 ! (index + 0) = (slots mem1 ! (index + 0))\<lparr>alloc_size :=
          ?S - ucast (?off + push_bit IO_TLB_SHIFT ((of_nat (index + 0) :: u32) - of_nat index))\<rparr>"
    using n0 by (rule f(5))
  then have "alloc_size (slots mem1 ! index) = ?S - ucast ?off"
    by (metis (no_types, lifting) add.right_neutral add_0 diff_self io_tlb_slot.select_convs(2)
        io_tlb_slot.surjective io_tlb_slot.update_convs(2) push_bit_of_0)
  then have a: "alloc_size (slots ?m2 ! index) = asz"
    using il n0 by (simp add: foldl_save_orig_slots)
  show ?thesis
  proof (rule that [of index mem1 ?m2])
    show "swiotlb_find_slots lockless cpu dev mem orig ?S am = Inr (Some index, mem1)" by (rule fs)
    show "msz \<le> asz" by (rule le)
    show "?m2 = ?m2" by (rule refl)
    show "pool' = Some ?m2" using pool' n by simp
    show "addr = start mem + push_bit 11 (of_nat index) + ucast ?off"
      using addr f(4) by (simp add: slot_addr_def IO_TLB_SHIFT_def)
    show "swiotlb_bounce dev ?m2 mach addr msz DMA_TO_DEVICE = Inr mach'" using bn n by simp
    show "index < 2 ^ 31" by (rule i31)
    show "index < length (slots ?m2)" using il by (simp add: foldl_save_orig_fields)
    show "start ?m2 = start mem" using f(4) by (simp add: foldl_save_orig_fields)
    show "orig_addr (slots ?m2 ! index) = orig" by (rule o)
    show "alloc_size (slots ?m2 ! index) = asz" by (rule a)
  qed
qed

lemma map_single_bounce_facts:
  assumes al: "start mem AND (IO_TLB_SIZE - 1) = 0"
    and i31: "index < 2 ^ 31"
    and addr: "addr = start mem + push_bit 11 (of_nat index) + ucast (swiotlb_align_offset dev orig)"
    and st: "start mem2 = start mem"
    and o: "orig_addr (slots mem2 ! index) = orig"
  shows "bounce_index mem2 addr = index"
    and "ucast (addr AND (IO_TLB_SIZE - 1)) = swiotlb_align_offset dev orig"
    and "bounce_offset dev mem2 addr = 0"
proof -
  let ?off = "swiotlb_align_offset dev orig"
  have "addr - start mem2 = push_bit 11 (of_nat index) + ucast ?off"
    by (simp add: addr st)
  then have "drop_bit IO_TLB_SHIFT (addr - start mem2) = (of_nat index :: u64)"
    using drop_bit_slot [OF i31 take_bit_align_offset] by (simp add: IO_TLB_SHIFT_def)
  moreover have "unat (ucast (of_nat index :: u64) :: u32) = index"
    using i31 by (simp add: unsigned_ucast_eq unat_of_nat take_bit_nat_eq_self_iff)
  ultimately show bi: "bounce_index mem2 addr = index" by (simp add: bounce_index_def)
  have "take_bit 11 (start mem + push_bit 11 (of_nat index :: u64)) = 0"
    using aligned_start [OF al] by (rule aligned_plus_units)
  then have "take_bit 11 addr = take_bit 11 (ucast ?off :: u64)"
    unfolding addr by (rule take_bit_sum_aligned)
  then have "addr AND (IO_TLB_SIZE - 1) = ucast ?off"
    by (simp add: IO_TLB_SIZE_def mask11 take_bit_align_offset flip: take_bit_eq_mask)
  moreover have "(ucast (ucast ?off :: u64) :: u32) = ?off"
    by (rule bit_word_eqI) (auto simp: bit_simps dest: bit_imp_le_length)
  ultimately show lo: "ucast (addr AND (IO_TLB_SIZE - 1)) = ?off" by simp
  show "bounce_offset dev mem2 addr = 0" by (simp add: bounce_offset_def bi o lo)
qed

lemma map_single_copies:
  assumes inv: "pool_inv mem"
    and al: "start mem AND (IO_TLB_SIZE - 1) = 0"
    and res: "swiotlb_tbl_map_single lockless cpu dev (Some mem) mach orig msz asz am dir attrs
                = Inr (addr, pool', mach')"
    and ok: "addr \<noteq> DMA_MAPPING_ERROR"
    and valid: "orig \<noteq> INVALID_PHYS_ADDR"
  shows "mach' = mach\<lparr>staging := memcpy (staging mach) (addr - start mem) (ram mach) orig msz\<rparr>"
proof -
  from inv res ok obtain index mem1 mem2 where
    le: "msz \<le> asz"
    and addr: "addr = start mem + push_bit 11 (of_nat index) + ucast (swiotlb_align_offset dev orig)"
    and bn: "swiotlb_bounce dev mem2 mach addr msz DMA_TO_DEVICE = Inr mach'"
    and i31: "index < 2 ^ 31"
    and il: "index < length (slots mem2)"
    and st: "start mem2 = start mem"
    and o: "orig_addr (slots mem2 ! index) = orig"
    and a: "alloc_size (slots mem2 ! index) = asz"
    by (rule map_single_success)
  note b = map_single_bounce_facts [OF al i31 addr st o]
  have bv: "bounce_valid dev mem2 addr = asz" by (simp add: bounce_valid_def b a)
  have nover: "\<not> bounce_valid dev mem2 addr < msz" using le by (simp add: bv not_less)
  have "swiotlb_bounce dev mem2 mach addr msz DMA_TO_DEVICE =
          Inr (mach\<lparr>staging := memcpy (staging mach) (addr - start mem2) (ram mach) orig msz\<rparr>)"
    by (subst bounce_copies)
       (simp_all only: b o a il valid not_False_eq_True less_irrefl unsigned_0 word_not_simps
          nover Let_def if_True if_False if_cancel add_0_right page_decompose simp_thms)
  with bn st show ?thesis by simp
qed

lemma ex_from_device_map:
  "map_result (swiotlb_tbl_map_single False 0 ex_dev (Some ex_pool) ex_mach 0x5000 3000 3000 0
                 DMA_FROM_DEVICE 0) = Some (0x1000000, Some ex_mapped)"
  by code_simp





lemma map_result_addr:
  assumes "map_option fst (map_result r) = Some a"
  shows "\<exists>pool mach. r = Inr (a, pool, mach)"
  using assms by (auto simp: map_result_def split: sum.splits prod.splits)


lemma ex_ata_first:
  "map_option fst (map_result (swiotlb_tbl_map_single False 0 ex_ata (Some ex_pool64) ex_mach
       0x200000 63488 63488 0 DMA_TO_DEVICE 0)) = Some 0x1000000"
  by code_simp

lemma ex_ata_second:
  "map_option fst (map_result (swiotlb_tbl_map_single False 0 ex_ata (Some ex_ata_busy) ex_mach
       0x5000 3000 3000 0 DMA_TO_DEVICE 0)) = Some 0x100F800"
  by code_simp

lemma ex_ata_cross:
  "spec_crosses_boundary (dma_get_seg_boundary ex_ata) (phys_to_dma_unencrypted ex_ata 0x100F800) 3000"
  by code_simp

lemma ex_ata_limits: "search_max_slots ex_ata = 128" "get_max_slots (dma_get_seg_boundary ex_ata) = 32"
  by code_simp+


lemma ex_pool64_reachable: "reachable lockless ex_pool64"
  unfolding ex_pool64_def by (rule reachable.init) simp_all

lemma ex_ata_busy_reachable: "reachable False ex_ata_busy"
proof -
  from map_result_addr [OF ex_ata_first] obtain pool1 mach1 where
    m: "swiotlb_tbl_map_single False 0 ex_ata (Some ex_pool64) ex_mach 0x200000 63488 63488 0
          DMA_TO_DEVICE 0 = Inr (0x1000000, pool1, mach1)" by blast
  have "(0x1000000 :: u64) \<noteq> DMA_MAPPING_ERROR" by code_simp
  with map_single_cases [OF m] obtain mem1 where p: "pool1 = Some mem1" by blast
  then have "ex_ata_busy = mem1" by (simp add: ex_ata_busy_def m)
  with ex_pool64_reachable m p show ?thesis by (auto intro: reachable.map_single)
qed

section \<open>The claims\<close>






text \<open>
  C10 (pre-search rejection): a call for which the pool is absent or has no units, or whose
  mapping size exceeds its allocation size, returns \<open>DMA_MAPPING_ERROR\<close>; the pool is
  returned as it was, and of the memory only the log of diagnostics grows.
\<close>

theorem pre_search_rejection:
  assumes "pool = None \<or> (\<exists>mem. pool = Some mem \<and> nslabs mem = 0) \<or> alloc_sz < mapping_size"
  shows "swiotlb_tbl_map_single lockless cpu dev pool mach orig mapping_size alloc_sz
           alloc_align_mask dir attrs
         = Inr (DMA_MAPPING_ERROR, pool,
                warn (case pool of None \<Rightarrow> No_bounce_buffer
                      | Some mem \<Rightarrow> if nslabs mem = 0 then No_bounce_buffer
                                    else Invalid_sizes) mach)"
proof (cases pool)
  case None
  then show ?thesis by (simp add: swiotlb_tbl_map_single_def)
next
  case (Some mem)
  with assms have "nslabs mem = 0 \<or> alloc_sz < mapping_size" by auto
  from map_single_reject [OF this] Some show ?thesis by simp
qed

theorem pre_search_rejection_witness:
  "(100::u64) < 200
   \<and> swiotlb_tbl_map_single False 0 ex_dev (Some ex_pool) ex_mach 0x5000 200 100 0
        DMA_TO_DEVICE 0
       = Inr (DMA_MAPPING_ERROR, Some ex_pool, warn Invalid_sizes ex_mach)"
proof -
  have h: "(100::u64) < 200" by simp
  then have "Some ex_pool = None \<or> (\<exists>mem. Some ex_pool = Some mem \<and> nslabs mem = 0)
               \<or> (100::u64) < 200" by simp
  from pre_search_rejection [OF this, where lockless = False and cpu = 0 and dev = ex_dev
      and mach = ex_mach and orig = "0x5000" and alloc_align_mask = 0 and dir = DMA_TO_DEVICE
      and attrs = 0] h
  show ?thesis by (simp add: ex_pool_def init_fields)
qed











text \<open>
  C8 (unconditional initial bounce): a successful \<^verbatim>\<open>swiotlb_tbl_map_single\<close> returns
  with the \<open>mapping_size\<close> bytes of the original buffer already in the staging buffer at
  the returned address, whatever the direction \<open>dir\<close> of the transfer (the copy is always
  made in the direction \<open>DMA_TO_DEVICE\<close>). The staging memory is addressed relative
  to the pool start, which is aligned to the unit size as every pool the kernel sets up is;
  the original address is a real one, not the sentinel \<open>INVALID_PHYS_ADDR\<close>.
\<close>

theorem unconditional_initial_bounce:
  assumes "reachable lockless mem"
    and "start mem AND (IO_TLB_SIZE - 1) = 0"
    and "swiotlb_tbl_map_single lockless cpu dev (Some mem) mach orig mapping_size alloc_sz
           alloc_align_mask dir attrs = Inr (tlb_addr, pool', mach')"
    and "tlb_addr \<noteq> DMA_MAPPING_ERROR"
    and "orig \<noteq> INVALID_PHYS_ADDR"
    and "k < mapping_size"
  shows "staging mach' (tlb_addr - start mem + k) = ram mach (orig + k)"
proof -
  from assms(1) have "pool_inv mem" by (rule reachable_pool_inv)
  from map_single_copies [OF this assms(2-5)]
  have "mach' = mach\<lparr>staging := memcpy (staging mach) (tlb_addr - start mem) (ram mach) orig
                                    mapping_size\<rparr>" .
  with assms(6) show ?thesis by (simp add: memcpy_at)
qed

theorem unconditional_initial_bounce_witness:
  "reachable False ex_pool \<and> start ex_pool AND (IO_TLB_SIZE - 1) = 0
   \<and> (\<exists>mach'. swiotlb_tbl_map_single False 0 ex_dev (Some ex_pool) ex_mach 0x5000 3000 3000 0
                  DMA_FROM_DEVICE 0 = Inr (0x1000000, Some ex_mapped, mach')
              \<and> (0x1000000 :: u64) \<noteq> DMA_MAPPING_ERROR
              \<and> (0x5000 :: u64) \<noteq> INVALID_PHYS_ADDR \<and> (2999 :: u64) < 3000
              \<and> staging mach' (0x1000000 - start ex_pool + 2999) = ram ex_mach (0x5000 + 2999)
              \<and> ram ex_mach (0x5000 + 2999) = 0xB7)"
proof -
  have al: "start ex_pool AND (IO_TLB_SIZE - 1) = 0" by code_simp
  have ok: "(0x1000000 :: u64) \<noteq> DMA_MAPPING_ERROR" "(0x5000 :: u64) \<noteq> INVALID_PHYS_ADDR"
    by code_simp+
  have k: "(2999 :: u64) < 3000" by simp
  have r: "ram ex_mach (0x5000 + 2999) = 0xB7" by (simp add: ex_mach_def)
  from map_result_Some [OF ex_from_device_map] obtain mach1 where
    m: "swiotlb_tbl_map_single False 0 ex_dev (Some ex_pool) ex_mach 0x5000 3000 3000 0
          DMA_FROM_DEVICE 0 = Inr (0x1000000, Some ex_mapped, mach1)" by blast
  from unconditional_initial_bounce [OF ex_pool_reachable al m ok k]
  have "staging mach1 (0x1000000 - start ex_pool + 2999) = ram ex_mach (0x5000 + 2999)" .
  with ex_pool_reachable al m ok k r show ?thesis by blast
qed



text \<open>
  C3 (boundary respected), evaluated on a device with a 64KiB segment boundary. The search
  computes the limit of 32 units from the boundary mask and then raises it to the segment
  size of 128 units (\<open>search_max_slots\<close>), so the boundary test accepts unit 31 for a
  request of two units, which the limit of 32 units rejects. In \<open>ex_ata_busy\<close>, where units
  0 to 30 are taken, a mapping of 3000 bytes is placed at \<open>0x100F800\<close>: its bytes lie on
  both sides of \<open>0x1010000\<close>, a multiple of 64KiB.
\<close>

theorem boundary_limit_raised_to_segment:
  "map_option fst (map_result (swiotlb_tbl_map_single False 0 ex_ata (Some ex_ata_busy) ex_mach
       0x5000 3000 3000 0 DMA_TO_DEVICE 0)) = Some 0x100F800
   \<and> spec_crosses_boundary (dma_get_seg_boundary ex_ata)
         (phys_to_dma_unencrypted ex_ata 0x100F800) 3000
   \<and> get_max_slots (dma_get_seg_boundary ex_ata) = 32
   \<and> search_max_slots ex_ata = 128
   \<and> iommu_is_span_boundary 31 2 (nr_slots (search_tbl_dma_addr ex_ata ex_ata_busy))
         (get_max_slots (dma_get_seg_boundary ex_ata))
   \<and> \<not> iommu_is_span_boundary 31 2 (nr_slots (search_tbl_dma_addr ex_ata ex_ata_busy))
         (search_max_slots ex_ata)"
  by (intro conjI; code_simp)

end
